theory Spec2Isabelle
  imports Main "HOL-Library.Word" "HOL-Library.Extended_Nat"
begin

section \<open>Host data: bytes, strings, errors\<close>

text \<open>
  A \<open>Uint8Array\<close> is a list of bytes. A host (JavaScript) string is a list of UTF-16
  code units; \<open>charCodeAt\<close> reads one unit as a number.
\<close>

type_synonym byte = "8 word"
type_synonym jsstring = "16 word list"

datatype error =
  InvalidCodePoint
  | RangeError
  | TypeError
  | StreamEndedPrematurely
  | InternalError
  | IndefiniteLength
  | InvalidArgumentEncoding
  | UnsafeIntegerError int
  | NonStringKey
  | DuplicateObjectKey
  | TaggedItem
  | UndefinedNotAllowed
  | UnassignedSimpleValue
  | Float16BelowMin
  | Float32BelowMin
  | InvalidSimpleValue
  | InvalidMajorType
  | HookError

section \<open>utils: getByteLength\<close>

text \<open>
  \<open>falsy\<close> is the test \<open>!leadSurrogate\<close>: the variable holds \<open>null\<close> or a number.
\<close>

fun falsy :: "nat option \<Rightarrow> bool" where
  "falsy None = True"
| "falsy (Some n) = (n = 0)"

text \<open>The tail of the loop body, under the comment \<open>encode utf8\<close>.\<close>

definition encodeUtf8 :: "nat \<Rightarrow> nat \<Rightarrow> error + nat" where
  "encodeUtf8 codePoint bytes =
     (if codePoint < 0x80 then Inr (bytes + 1)
      else if codePoint < 0x800 then Inr (bytes + 2)
      else if codePoint < 0x10000 then Inr (bytes + 3)
      else if codePoint < 0x110000 then Inr (bytes + 4)
      else Inl InvalidCodePoint)"

text \<open>
  The loop of \<open>getByteLength\<close>, on the code units from index \<open>i\<close> on: \<open>rest = []\<close>
  is the test \<open>i + 1 === length\<close>. The surrogate pair is combined as
  \<open>(((lead - 0xd800) << 10) | (codePoint - 0xdc00)) + 0x10000\<close>; the two operands of
  the bitwise or have no bit in common, so it is written as a sum.
\<close>

fun byteLengthLoop :: "nat option \<Rightarrow> nat \<Rightarrow> jsstring \<Rightarrow> error + nat" where
  "byteLengthLoop leadSurrogate bytes [] = Inr bytes"
| "byteLengthLoop leadSurrogate bytes (c # rest) =
     (let codePoint = unat c in
      if codePoint > 0xd7ff \<and> codePoint < 0xe000 then
        (if falsy leadSurrogate then
           (if codePoint > 0xdbff then byteLengthLoop leadSurrogate (bytes + 3) rest
            else if rest = [] then byteLengthLoop leadSurrogate (bytes + 3) rest
            else byteLengthLoop (Some codePoint) bytes rest)
         else if codePoint < 0xdc00 then byteLengthLoop (Some codePoint) (bytes + 3) rest
         else
           (case encodeUtf8 ((the leadSurrogate - 0xd800) * 1024 + (codePoint - 0xdc00) + 0x10000) bytes of
              Inl e \<Rightarrow> Inl e
            | Inr bytes' \<Rightarrow> byteLengthLoop None bytes' rest))
      else
        (case encodeUtf8 codePoint (if falsy leadSurrogate then bytes else bytes + 3) of
           Inl e \<Rightarrow> Inl e
         | Inr bytes' \<Rightarrow> byteLengthLoop None bytes' rest))"

definition getByteLength :: "jsstring \<Rightarrow> error + nat" where
  "getByteLength string = byteLengthLoop None 0 string"

subsection \<open>The UTF-8 length the specification asks for\<close>

text \<open>
  The specification's words: each unpaired surrogate code unit (lone lead, lone trail, or
  lead at the end of the string) contributes 3 bytes, each valid surrogate pair 4 bytes,
  and every other code point 1, 2 or 3 bytes as in standard UTF-8.
\<close>

definition isLead :: "16 word \<Rightarrow> bool" where
  "isLead c = (0xd800 \<le> unat c \<and> unat c \<le> 0xdbff)"

definition isTrail :: "16 word \<Rightarrow> bool" where
  "isTrail c = (0xdc00 \<le> unat c \<and> unat c \<le> 0xdfff)"

definition unitLength :: "16 word \<Rightarrow> nat" where
  "unitLength c =
     (if isLead c \<or> isTrail c then 3
      else if unat c < 0x80 then 1
      else if unat c < 0x800 then 2
      else 3)"

fun utf8LengthSpec :: "jsstring \<Rightarrow> nat" where
  "utf8LengthSpec [] = 0"
| "utf8LengthSpec [c] = unitLength c"
| "utf8LengthSpec (c # d # rest) =
     (if isLead c \<and> isTrail d then 4 + utf8LengthSpec rest
      else unitLength c + utf8LengthSpec (d # rest))"

section \<open>Values, key paths and results\<close>

text \<open>
  \<open>CBORValue\<close> of the source. A number that the decoder reads as an integer is kept as
  an integer (the host's doubles are exact on the range the decoder lets through); a number
  read as a float of 16, 32 or 64 bits is kept as its width and bit pattern, the value that
  \<open>getFloat16\<close>, \<open>getFloat32\<close> or \<open>getFloat64\<close> returns being a function of these.
  An object is the list of its own properties in insertion order.
\<close>

datatype cbor =
  VUndefined
  | VNull
  | VBoolean bool
  | VNumber int
  | VFloat nat nat
  | VBytes "byte list"
  | VString jsstring
  | VArray "cbor list"
  | VObject "(jsstring \<times> cbor) list"

datatype key = Name jsstring | Index nat

text \<open>
  A computation of the decoder runs on a state and returns a value and the new state, or
  throws. \<open>OutOfFuel\<close> is not a result of the source: it is the model's answer when
  the recursion bound given to it is used up.
\<close>

datatype 'a res = Ok 'a | Err error | OutOfFuel

type_synonym ('s, 'a) m = "'s \<Rightarrow> ('a \<times> 's) res"

definition ret :: "'a \<Rightarrow> ('s, 'a) m" where
  "ret x = (\<lambda>s. Ok (x, s))"

definition throw :: "error \<Rightarrow> ('s, 'a) m" where
  "throw e = (\<lambda>s. Err e)"

definition andThen :: "('s, 'a) m \<Rightarrow> ('a \<Rightarrow> ('s, 'b) m) \<Rightarrow> ('s, 'b) m" where
  "andThen m f = (\<lambda>s. case m s of Ok (x, s') \<Rightarrow> f x s' | Err e \<Rightarrow> Err e | OutOfFuel \<Rightarrow> OutOfFuel)"

text \<open>
  \<open>for (let i = start; i < length; i++) body\<close>, with the variables the body updates
  passed along as \<open>acc\<close>. The bound \<open>len\<close> (\<open>length\<close> in the source) can
  be \<open>Infinity\<close>.
\<close>

primrec forLoop :: "nat \<Rightarrow> enat \<Rightarrow> nat \<Rightarrow> (nat \<Rightarrow> 'a \<Rightarrow> ('s, 'a) m) \<Rightarrow> 'a \<Rightarrow> ('s, 'a) m" where
  "forLoop 0 len i body acc = (if enat i < len then (\<lambda>s. OutOfFuel) else ret acc)"
| "forLoop (Suc fuel) len i body acc =
     (if enat i < len then andThen (body i acc) (\<lambda>acc'. forLoop fuel len (Suc i) body acc')
      else ret acc)"

section \<open>Decode options and hooks\<close>

text \<open>
  A hook (\<open>onValue\<close>, \<open>onKey\<close>) is a host function that is handed a thunk. What it
  does to the decoder is: call the thunk (any number of times), then return a value
  (\<open>undefined\<close> for none) or throw. \<open>Call k\<close> calls the thunk and goes on as \<open>k v\<close>
  with the thunk's result \<open>v\<close>; an exception of the thunk is not caught by the hook.
  These are the host functions that call their thunk outside \<open>try\<close>, that call it again
  only when the call before has returned (on the asynchronous decoder: has been awaited),
  and that do not write to the array \<open>keyPath\<close> they are handed. Hooks that catch and
  hooks that write to \<open>keyPath\<close> are the type \<open>xhook\<close> below; calls of an asynchronous
  thunk that overlap are \<open>twoCalls\<close> below.
\<close>

datatype hook = Return cbor | Throw | Call "cbor \<Rightarrow> hook"

record opts =
  allowUndefined :: bool
  minFloatSize :: nat
  onKey :: "(enat \<Rightarrow> hook) option"
  onValue :: "(enat \<Rightarrow> string \<Rightarrow> key list \<Rightarrow> hook) option"

text \<open>
  Running a hook with the thunk \<open>callback\<close>. The thunks of the source close over a
  variable \<open>value\<close> and assign their result to it; \<open>callback\<close> takes the variable's
  content, and the run returns the hook's result with the variable's final content.
\<close>

primrec runHook :: "hook \<Rightarrow> (cbor \<Rightarrow> ('s, cbor) m) \<Rightarrow> cbor \<Rightarrow> ('s, cbor \<times> cbor) m" where
  "runHook (Return val) callback value = ret (val, value)"
| "runHook Throw callback value = throw HookError"
| "runHook (Call k) callback value = andThen (callback value) (\<lambda>v. runHook (k v) callback v)"

text \<open>
  The thunk of a byte string, text string, array or map:
  \<open>value = (value === undefined ? decode() : value)\<close>.
\<close>

definition memo :: "('s, cbor) m \<Rightarrow> cbor \<Rightarrow> ('s, cbor) m" where
  "memo decode value = (if value = VUndefined then decode else ret value)"

text \<open>
  The pattern of major types 2 to 5:
  \<^verbatim>\<open>const val = this.onValue?.(callback, ...)
if (val !== undefined) { if (value !== undefined) return val; skip; return val }
return callback()\<close>
\<close>

definition hooked :: "hook option \<Rightarrow> ('s, cbor) m \<Rightarrow> ('s, unit) m \<Rightarrow> ('s, cbor) m" where
  "hooked h decode skip =
     (case h of
        None \<Rightarrow> memo decode VUndefined
      | Some p \<Rightarrow>
          andThen (runHook p (memo decode) VUndefined) (\<lambda>(val, value).
            if val \<noteq> VUndefined then
              (if value \<noteq> VUndefined then ret val else andThen skip (\<lambda>_. ret val))
            else memo decode value))"

text \<open>
  The pattern of the scalars:
  \<^verbatim>\<open>val = this.onValue?.(() => value, ...); return val === undefined ? value : val\<close>
\<close>

definition hookedConst :: "hook option \<Rightarrow> cbor \<Rightarrow> ('s, cbor) m" where
  "hookedConst h value =
     (case h of
        None \<Rightarrow> ret value
      | Some p \<Rightarrow>
          andThen (runHook p (\<lambda>_. ret value) VUndefined) (\<lambda>(val, _).
            ret (if val = VUndefined then value else val)))"

section \<open>The decoder\<close>

text \<open>
  The three decoders of the source (\<open>Decoder.ts\<close> on a byte array, \<open>decodeIterable\<close> on
  an iterable of chunks, \<open>decodeAsyncIterable.ts\<close> on an asynchronous one) have the same
  \<open>getArgument\<close>, \<open>decodeValue\<close> and \<open>skipValue\<close> up to the way bytes are read and to
  the test for duplicate keys. The record \<open>reader\<close> holds what differs:
  \<^item> \<open>readConstant n\<close>: the reads \<open>this.constant(n, f)\<close> (\<open>uint8\<close> to \<open>float64\<close>), as the
    \<open>n\<close> bytes that \<open>f\<close> reads;
  \<^item> \<open>decodeBytes\<close>, \<open>decodeString\<close>;
  \<^item> \<open>skipBytes n\<close>: \<open>this.#offset += n\<close>, or \<open>this.allocate(n); this.advance(n)\<close>;
  \<^item> \<open>duplicate key value\<close>: the test \<open>key in value\<close> that throws, where there is one.
\<close>

record 's reader =
  readConstant :: "nat \<Rightarrow> ('s, byte list) m"
  decodeBytes :: "enat \<Rightarrow> ('s, byte list) m"
  decodeString :: "enat \<Rightarrow> ('s, jsstring) m"
  skipBytes :: "enat \<Rightarrow> ('s, unit) m"
  duplicate :: "jsstring \<Rightarrow> (jsstring \<times> cbor) list \<Rightarrow> bool"

text \<open>The decoder object: its byte source and \<open>env\<close>.\<close>

record 's decoder =
  src :: 's
  isKey :: bool
  keyPath :: "key list"

definition onSrc :: "('s, 'a) m \<Rightarrow> ('s decoder, 'a) m" where
  "onSrc f = (\<lambda>d. case f (src d) of
       Ok (x, s') \<Rightarrow> Ok (x, d\<lparr>src := s'\<rparr>) | Err e \<Rightarrow> Err e | OutOfFuel \<Rightarrow> OutOfFuel)"

definition getEnv :: "('s decoder, bool \<times> key list) m" where
  "getEnv = (\<lambda>d. Ok ((isKey d, keyPath d), d))"

definition setIsKey :: "bool \<Rightarrow> ('s decoder, unit) m" where
  "setIsKey b = (\<lambda>d. Ok ((), d\<lparr>isKey := b\<rparr>))"

definition pushKey :: "key \<Rightarrow> ('s decoder, unit) m" where
  "pushKey k = (\<lambda>d. Ok ((), d\<lparr>keyPath := keyPath d @ [k]\<rparr>))"

definition popKey :: "('s decoder, unit) m" where
  "popKey = (\<lambda>d. Ok ((), d\<lparr>keyPath := butlast (keyPath d)\<rparr>))"

text \<open>Big-endian reading of the bytes of a \<open>DataView\<close>.\<close>

definition bigEndian :: "byte list \<Rightarrow> nat" where
  "bigEndian bs = foldl (\<lambda>acc b. acc * 256 + unat b) 0 bs"

definition uint :: "'s reader \<Rightarrow> nat \<Rightarrow> ('s decoder, nat) m" where
  "uint rd n = andThen (onSrc (readConstant rd n)) (\<lambda>bs. ret (bigEndian bs))"

definition float :: "'s reader \<Rightarrow> nat \<Rightarrow> ('s decoder, cbor) m" where
  "float rd n = andThen (onSrc (readConstant rd n)) (\<lambda>bs. ret (VFloat (8 * n) (bigEndian bs)))"

definition maxSafeInteger :: nat where
  "maxSafeInteger = 2 ^ 53 - 1"

definition minSafeInteger :: int where
  "minSafeInteger = - (2 ^ 53 - 1)"

text \<open>\<open>getArgument\<close> returns \<open>{ value, uint64, size }\<close>, here a triple.\<close>

definition getArgument :: "'s reader \<Rightarrow> nat \<Rightarrow> ('s decoder, enat \<times> nat option \<times> nat) m" where
  "getArgument rd additionalInformation =
     (if additionalInformation < 24 then ret (enat additionalInformation, None, 1)
      else if additionalInformation = 24 then andThen (uint rd 1) (\<lambda>v. ret (enat v, None, 1))
      else if additionalInformation = 25 then andThen (uint rd 2) (\<lambda>v. ret (enat v, None, 2))
      else if additionalInformation = 26 then andThen (uint rd 4) (\<lambda>v. ret (enat v, None, 4))
      else if additionalInformation = 27 then
        andThen (uint rd 8) (\<lambda>uint64.
          ret (if maxSafeInteger < uint64 then \<infinity> else enat uint64, Some uint64, 8))
      else if additionalInformation = 31 then throw IndefiniteLength
      else throw InvalidArgumentEncoding)"

text \<open>
  \<open>skipValue\<close>. The first argument after the options bounds the depth of the recursion
  and the number of turns of a loop.
\<close>

primrec skipValue :: "'s reader \<Rightarrow> opts \<Rightarrow> nat \<Rightarrow> ('s decoder, unit) m" where
  "skipValue rd opts 0 = (\<lambda>d. OutOfFuel)"
| "skipValue rd opts (Suc fuel) =
     andThen (uint rd 1) (\<lambda>initialByte.
       let majorType = initialByte div 32;
           additionalInformation = initialByte mod 32
       in
       if majorType = 0 \<or> majorType = 1 then
         andThen (getArgument rd additionalInformation) (\<lambda>_. ret ())
       else if majorType = 2 \<or> majorType = 3 then
         andThen (getArgument rd additionalInformation) (\<lambda>(len, _, _).
           onSrc (skipBytes rd len))
       else if majorType = 4 then
         andThen (getArgument rd additionalInformation) (\<lambda>(len, _, _).
           forLoop fuel len 0 (\<lambda>i _. skipValue rd opts fuel) ())
       else if majorType = 5 then
         andThen (getArgument rd additionalInformation) (\<lambda>(len, _, _).
           forLoop fuel (len * 2) 0 (\<lambda>i _. skipValue rd opts fuel) ())
       else if majorType = 6 then throw TaggedItem
       else if majorType = 7 then
         (if additionalInformation = 20 \<or> additionalInformation = 21 \<or> additionalInformation = 22
          then ret ()
          else if additionalInformation = 23 then
            (if \<not> allowUndefined opts then throw UndefinedNotAllowed else ret ())
          else if additionalInformation = 24 then throw UnassignedSimpleValue
          else if additionalInformation = 25 then onSrc (skipBytes rd 2)
          else if additionalInformation = 26 then onSrc (skipBytes rd 4)
          else if additionalInformation = 27 then onSrc (skipBytes rd 8)
          else if additionalInformation = 31 then throw IndefiniteLength
          else throw InvalidSimpleValue)
       else ret ())"

text \<open>
  \<open>value[key] = v\<close> on the list of own properties, kept in the order of insertion. Two
  things that the host does differently are not represented: it lists the keys that are
  array indices first, in ascending order, and for the key \<open>__proto__\<close> the assignment sets
  the prototype of \<open>value\<close>, or does nothing, and adds no property.
\<close>

fun assign :: "(jsstring \<times> cbor) list \<Rightarrow> jsstring \<Rightarrow> cbor \<Rightarrow> (jsstring \<times> cbor) list" where
  "assign [] key v = [(key, v)]"
| "assign ((k, w) # ps) key v = (if k = key then (k, v) # ps else (k, w) # assign ps key v)"

text \<open>\<open>this.onValue?.(callback, length, type, keyPath)\<close>, as the hook to run, if any.\<close>

definition onValueAt :: "opts \<Rightarrow> enat \<Rightarrow> string \<Rightarrow> key list \<Rightarrow> hook option" where
  "onValueAt opts len type path = map_option (\<lambda>f. f len type path) (onValue opts)"

definition onKeyAt :: "opts \<Rightarrow> enat \<Rightarrow> hook option" where
  "onKeyAt opts len = map_option (\<lambda>f. f len) (onKey opts)"

text \<open>
  \<open>decodeValue\<close>. \<open>new Array(length)\<close> throws a \<open>RangeError\<close> unless \<open>length\<close> is below
  \<open>2 ^ 32\<close>. After the test of \<open>uint64\<close> in major types 0 and 1, \<open>value\<close> is finite.
\<close>

primrec decodeValue :: "'s reader \<Rightarrow> opts \<Rightarrow> nat \<Rightarrow> ('s decoder, cbor) m" where
  "decodeValue rd opts 0 = (\<lambda>d. OutOfFuel)"
| "decodeValue rd opts (Suc fuel) =
     andThen (uint rd 1) (\<lambda>initialByte.
     andThen getEnv (\<lambda>(isKey, keyPath).
       let majorType = initialByte div 32;
           additionalInformation = initialByte mod 32
       in
       if majorType = 0 then
         andThen (getArgument rd additionalInformation) (\<lambda>(value, uint64, size).
           if uint64 \<noteq> None \<and> maxSafeInteger < the uint64
           then throw (UnsafeIntegerError (int (the uint64)))
           else hookedConst (onValueAt opts (enat size) ''number'' keyPath)
                  (VNumber (int (the_enat value))))
       else if majorType = 1 then
         andThen (getArgument rd additionalInformation) (\<lambda>(value, uint64, size).
           if uint64 \<noteq> None \<and> - 1 - int (the uint64) < minSafeInteger
           then throw (UnsafeIntegerError (- 1 - int (the uint64)))
           else hookedConst (onValueAt opts (enat size) ''number'' keyPath)
                  (VNumber (- 1 - int (the_enat value))))
       else if majorType = 2 then
         andThen (getArgument rd additionalInformation) (\<lambda>(len, _, _).
           hooked (onValueAt opts len ''Uint8Array'' keyPath)
             (andThen (onSrc (decodeBytes rd len)) (\<lambda>bs. ret (VBytes bs)))
             (onSrc (skipBytes rd len)))
       else if majorType = 3 then
         andThen (getArgument rd additionalInformation) (\<lambda>(len, _, _).
           hooked (if isKey then onKeyAt opts len else onValueAt opts len ''string'' keyPath)
             (andThen (onSrc (decodeString rd len)) (\<lambda>s. ret (VString s)))
             (onSrc (skipBytes rd len)))
       else if majorType = 4 then
         andThen (getArgument rd additionalInformation) (\<lambda>(len, _, _).
           hooked (onValueAt opts len ''array'' keyPath)
             (if len < 2 ^ 32 then
                andThen
                  (forLoop fuel len 0
                     (\<lambda>i value.
                        andThen (pushKey (Index i)) (\<lambda>_.
                        andThen (decodeValue rd opts fuel) (\<lambda>v.
                        andThen popKey (\<lambda>_.
                        ret (value @ [v])))))
                     [])
                  (\<lambda>value. ret (VArray value))
              else throw RangeError)
             (forLoop fuel len 0 (\<lambda>i _. skipValue rd opts fuel) ()))
       else if majorType = 5 then
         andThen (getArgument rd additionalInformation) (\<lambda>(len, _, _).
           hooked (onValueAt opts len ''object'' keyPath)
             (andThen
                (forLoop fuel len 0
                   (\<lambda>i value.
                      andThen (setIsKey True) (\<lambda>_.
                      andThen (decodeValue rd opts fuel) (\<lambda>key.
                      andThen (setIsKey False) (\<lambda>_.
                      case key of
                        VString k \<Rightarrow>
                          if duplicate rd k value then throw DuplicateObjectKey
                          else
                            andThen (pushKey (Name k)) (\<lambda>_.
                            andThen (decodeValue rd opts fuel) (\<lambda>v.
                            andThen popKey (\<lambda>_.
                            ret (assign value k v))))
                      | _ \<Rightarrow> throw NonStringKey))))
                   [])
                (\<lambda>value. ret (VObject value)))
             (forLoop fuel (len * 2) 0 (\<lambda>i _. skipValue rd opts fuel) ()))
       else if majorType = 6 then throw TaggedItem
       else if majorType = 7 then
         (if additionalInformation = 20 then
            hookedConst (onValueAt opts 1 ''boolean'' keyPath) (VBoolean False)
          else if additionalInformation = 21 then
            hookedConst (onValueAt opts 1 ''boolean'' keyPath) (VBoolean True)
          else if additionalInformation = 22 then
            hookedConst (onValueAt opts 1 ''null'' keyPath) VNull
          else if additionalInformation = 23 then
            (if \<not> allowUndefined opts then throw UndefinedNotAllowed
             else hookedConst (onValueAt opts 1 ''undefined'' keyPath) VUndefined)
          else if additionalInformation = 24 then throw UnassignedSimpleValue
          else if additionalInformation = 25 then
            (if minFloatSize opts \<le> 16 then
               andThen (float rd 2) (\<lambda>value. hookedConst (onValueAt opts 2 ''number'' keyPath) value)
             else throw Float16BelowMin)
          else if additionalInformation = 26 then
            (if minFloatSize opts \<le> 32 then
               andThen (float rd 4) (\<lambda>value. hookedConst (onValueAt opts 4 ''number'' keyPath) value)
             else throw Float32BelowMin)
          else if additionalInformation = 27 then
            andThen (float rd 8) (\<lambda>value. hookedConst (onValueAt opts 8 ''number'' keyPath) value)
          else if additionalInformation = 31 then throw IndefiniteLength
          else throw InvalidSimpleValue)
       else throw InvalidMajorType))"

section \<open>The host\<close>

text \<open>
  Two things the decoders take from the host: \<open>TextDecoder.decode\<close>, and the names that
  an empty object \<open>{}\<close> inherits from \<open>Object.prototype\<close> (\<open>key in value\<close> is true
  for them). The host's memory is not bounded: \<open>new Uint8Array(n)\<close> succeeds for every
  finite \<open>n\<close>.
\<close>

record host =
  textDecode :: "byte list \<Rightarrow> jsstring"
  inherited :: "jsstring \<Rightarrow> bool"

section \<open>Decoder.ts: decoding a byte array\<close>

text \<open>
  The source of bytes is \<open>data\<close>, which never changes, and \<open>#offset\<close>, the state. The
  offset is a host number: it can pass the end of the data, and it can be \<open>Infinity\<close>.

  \<open>data.subarray(begin, end)\<close> clamps both ends to the array.
\<close>

definition subarray :: "byte list \<Rightarrow> enat \<Rightarrow> enat \<Rightarrow> byte list" where
  "subarray data begin end =
     (case begin of
        \<infinity> \<Rightarrow> []
      | enat b \<Rightarrow> (case end of \<infinity> \<Rightarrow> drop b data | enat e \<Rightarrow> take (e - b) (drop b data)))"

text \<open>
  \<open>this.constant(size, f)\<close>: \<open>f\<close> reads \<open>size\<close> bytes of the \<open>DataView\<close> at the offset,
  which throws a \<open>RangeError\<close> when they are not all there; then \<open>#offset += size\<close>.
\<close>

definition memConstant :: "byte list \<Rightarrow> nat \<Rightarrow> (enat, byte list) m" where
  "memConstant data n =
     (\<lambda>off. if off + enat n \<le> enat (length data)
             then Ok (subarray data off (off + enat n), off + enat n)
             else Err RangeError)"

text \<open>
  \<open>new Uint8Array(length)\<close> is filled with zeros (and throws for \<open>Infinity\<close>);
  \<open>value.set(...)\<close> copies the bytes that are there.
\<close>

definition memDecodeBytes :: "byte list \<Rightarrow> enat \<Rightarrow> (enat, byte list) m" where
  "memDecodeBytes data len =
     (\<lambda>off. if len = \<infinity> then Err RangeError
             else
               let part = subarray data off (off + len)
               in Ok (part @ replicate (the_enat len - length part) 0, off + len))"

definition memDecodeString :: "host \<Rightarrow> byte list \<Rightarrow> enat \<Rightarrow> (enat, jsstring) m" where
  "memDecodeString h data len =
     (\<lambda>off. Ok (textDecode h (subarray data off (off + len)), off + len))"

definition memSkipBytes :: "enat \<Rightarrow> (enat, unit) m" where
  "memSkipBytes len = (\<lambda>off. Ok ((), off + len))"

text \<open>\<open>key in value\<close>, for an object \<open>value\<close> that started as \<open>{}\<close>.\<close>

definition keyIn :: "host \<Rightarrow> jsstring \<Rightarrow> (jsstring \<times> cbor) list \<Rightarrow> bool" where
  "keyIn h k value = (inherited h k \<or> k \<in> fst ` set value)"

definition memReader :: "host \<Rightarrow> byte list \<Rightarrow> enat reader" where
  "memReader h data =
     \<lparr> readConstant = memConstant data,
       decodeBytes = memDecodeBytes data,
       decodeString = memDecodeString h data,
       skipBytes = memSkipBytes,
       duplicate = keyIn h \<rparr>"

text \<open>The constructor: \<open>#offset = 0\<close>, \<open>#env = { isKey: false, keyPath: [] }\<close>.\<close>

definition newDecoder :: "enat decoder" where
  "newDecoder = \<lparr> src = 0, isKey = False, keyPath = [] \<rparr>"

definition valueOf :: "('a \<times> 's) res \<Rightarrow> 'a res" where
  "valueOf r = (case r of Ok (v, s) \<Rightarrow> Ok v | Err e \<Rightarrow> Err e | OutOfFuel \<Rightarrow> OutOfFuel)"

text \<open>
  \<open>decode(data, options)\<close>: \<open>new Decoder(data, options).decodeValue()\<close>. Every call of
  \<open>decodeValue\<close> or \<open>skipValue\<close> reads a byte first, so the length of the data bounds
  the recursion.
\<close>

definition decode :: "host \<Rightarrow> opts \<Rightarrow> byte list \<Rightarrow> cbor res" where
  "decode h opts data =
     valueOf (decodeValue (memReader h data) opts (Suc (length data)) newDecoder)"

section \<open>decodeIterable and decodeAsyncIterable: decoding chunks\<close>

text \<open>
  The state of the two streaming decoders: \<open>offset\<close>, \<open>byteLength\<close>, \<open>chunks\<close>, and the
  iterator \<open>iter\<close> as the chunks that the source has not given yet. The asynchronous
  decoder is the synchronous one with \<open>await\<close> at each read and with the call of
  \<open>onFree\<close> in \<open>advance\<close>; \<open>freed\<close> is the sequence of chunks that \<open>onFree\<close> has been
  called with (for the synchronous decoder, which has no \<open>onFree\<close>, the chunks that
  \<open>advance\<close> has removed).
\<close>

record rope =
  offset :: nat
  byteLength :: nat
  chunks :: "byte list list"
  iter :: "byte list list"
  freed :: "byte list list"

function allocate :: "enat \<Rightarrow> (rope, unit) m" where
  "allocate n r =
     (if enat (byteLength r) < n then
        (case iter r of
           [] \<Rightarrow> Err StreamEndedPrematurely
         | v # rest \<Rightarrow>
             allocate n (r\<lparr>chunks := chunks r @ [v], byteLength := byteLength r + length v, iter := rest\<rparr>))
      else Ok ((), r))"
  by pat_completeness auto
termination
  by (relation "measure (\<lambda>(n, r). length (iter r))") auto

declare allocate.simps [simp del]

text \<open>
  The loop of \<open>advance\<close>. \<open>copied\<close> is the local \<open>byteLength\<close>, \<open>target\<close> the bytes
  written to the target so far (they are written at position \<open>copied\<close>, one run after the
  other). \<open>this.chunks[i]\<close> past the end is \<open>undefined\<close>, and reading its \<open>byteLength\<close>
  throws a \<open>TypeError\<close>. \<open>available\<close> is a difference of naturals: the offset stays
  within the first chunk (lemma \<open>ropeOk\<close> below).
\<close>

function advanceLoop :: "nat \<Rightarrow> nat \<Rightarrow> nat \<Rightarrow> nat \<Rightarrow> byte list \<Rightarrow> (rope, byte list \<times> nat) m" where
  "advanceLoop len i copied deleteCount target r =
     (if copied < len then
        (if i < length (chunks r) then
           (let chunk = chunks r ! i;
                capacity = len - copied;
                available = length chunk - offset r
            in
            if available \<le> capacity then
              advanceLoop len (Suc i) (copied + available) (Suc deleteCount)
                (target @ drop (offset r) chunk)
                (r\<lparr>offset := 0, byteLength := byteLength r - available\<rparr>)
            else
              advanceLoop len (Suc i) (copied + capacity) deleteCount
                (target @ take capacity (drop (offset r) chunk))
                (r\<lparr>offset := offset r + capacity, byteLength := byteLength r - capacity\<rparr>))
         else Err TypeError)
      else Ok ((target, deleteCount), r))"
  by pat_completeness auto
termination
  by (relation "measure (\<lambda>(len, i, copied, deleteCount, target, r). length (chunks r) - i)") auto

declare advanceLoop.simps [simp del]

text \<open>\<open>advance(length, target)\<close>, returning what it wrote to the target.\<close>

definition advance :: "enat \<Rightarrow> (rope, byte list) m" where
  "advance len =
     (\<lambda>r. if enat (byteLength r) < len then Err InternalError
           else
             (case advanceLoop (the_enat len) 0 0 0 [] r of
                Ok ((target, deleteCount), r') \<Rightarrow>
                  Ok (target, r'\<lparr>freed := freed r' @ take deleteCount (chunks r'),
                                 chunks := drop deleteCount (chunks r')\<rparr>)
              | Err e \<Rightarrow> Err e
              | OutOfFuel \<Rightarrow> OutOfFuel))"

text \<open>\<open>this.allocate(n); this.fill(new Uint8Array(n))\<close>, returning the array.\<close>

definition allocateFill :: "enat \<Rightarrow> (rope, byte list) m" where
  "allocateFill len = andThen (allocate len) (\<lambda>_. advance len)"

definition streamSkipBytes :: "enat \<Rightarrow> (rope, unit) m" where
  "streamSkipBytes len = andThen (allocate len) (\<lambda>_. andThen (advance len) (\<lambda>_. ret ()))"

definition streamReader :: "host \<Rightarrow> rope reader" where
  "streamReader h =
     \<lparr> readConstant = (\<lambda>n. allocateFill (enat n)),
       decodeBytes = allocateFill,
       decodeString = (\<lambda>len. andThen (allocateFill len) (\<lambda>bs. ret (textDecode h bs))),
       skipBytes = streamSkipBytes,
       duplicate = (\<lambda>k value. False) \<rparr>"

text \<open>
  The loop at the head of \<open>next\<close>: it returns \<open>True\<close> for \<open>done\<close>.
\<close>

function awaitChunk :: "(rope, bool) m" where
  "awaitChunk r =
     (if byteLength r = 0 then
        (case iter r of
           [] \<Rightarrow> Ok (True, r)
         | v # rest \<Rightarrow>
             if length v > 0
             then awaitChunk (r\<lparr>chunks := chunks r @ [v], byteLength := byteLength r + length v, iter := rest\<rparr>)
             else awaitChunk (r\<lparr>iter := rest\<rparr>))
      else Ok (False, r))"
  by pat_completeness auto
termination
  by (relation "measure (\<lambda>r. length (iter r))") auto

declare awaitChunk.simps [simp del]

definition next_value :: "host \<Rightarrow> opts \<Rightarrow> nat \<Rightarrow> (rope decoder, cbor option) m" where
  "next_value h opts fuel =
     andThen (onSrc awaitChunk) (\<lambda>done.
       if done then ret None
       else andThen (decodeValue (streamReader h) opts fuel) (\<lambda>v. ret (Some v)))"

text \<open>
  Consuming an iterator to its end: the values it yields, and how it ends (done, with
  the final state, or with an exception).
\<close>

datatype 's ending = Done 's | Thrown error | Unfinished

primrec consume :: "nat \<Rightarrow> ('s, cbor option) m \<Rightarrow> 's \<Rightarrow> cbor list \<times> 's ending" where
  "consume 0 nxt s = ([], Unfinished)"
| "consume (Suc fuel) nxt s =
     (case nxt s of
        Ok (None, s') \<Rightarrow> ([], Done s')
      | Ok (Some v, s') \<Rightarrow> (case consume fuel nxt s' of (vs, e) \<Rightarrow> (v # vs, e))
      | Err e \<Rightarrow> ([], Thrown e)
      | OutOfFuel \<Rightarrow> ([], Unfinished))"

definition newStreamDecoder :: "byte list list \<Rightarrow> rope decoder" where
  "newStreamDecoder source =
     \<lparr> src = \<lparr> offset = 0, byteLength = 0, chunks = [], iter = source, freed = [] \<rparr>,
       isKey = False, keyPath = [] \<rparr>"

text \<open>
  \<open>decodeIterable(source, options)\<close>, consumed to its end. Each value takes at least one
  byte, so the number of bytes of the source bounds the number of values and the recursion.
\<close>

definition decodeIterable :: "host \<Rightarrow> opts \<Rightarrow> byte list list \<Rightarrow> cbor list \<times> rope decoder ending" where
  "decodeIterable h opts source =
     (let fuel = Suc (length (concat source))
      in consume fuel (next_value h opts fuel) (newStreamDecoder source))"

text \<open>
  \<open>decodeAsyncIterable(source, options)\<close>, consumed to its end; the calls of
  \<open>options.onFree\<close> are the field \<open>freed\<close> of the final state. The hooks await each call
  of their thunk before the next call and before they return, so that the reads come in
  the order of the synchronous decoder. Two calls of the asynchronous thunk of a byte string
  or text string that overlap (the second made while the first is pending) both find
  \<open>value === undefined\<close>, the thunk assigning \<open>value\<close> after its \<open>await\<close>, and both read
  the payload; such calls are not hooks of this definition, and are \<open>twoCalls\<close> below.
\<close>

definition decodeAsyncIterable :: "host \<Rightarrow> opts \<Rightarrow> byte list list \<Rightarrow> cbor list \<times> rope decoder ending" where
  "decodeAsyncIterable h opts source = decodeIterable h opts source"

text \<open>The options when none are given: \<open>allowUndefined ?? true\<close>, \<open>minFloatSize ?? 16\<close>.\<close>

definition defaultOptions :: opts where
  "defaultOptions = \<lparr> allowUndefined = True, minFloatSize = 16, onKey = None, onValue = None \<rparr>"

section \<open>decodeAsyncIterable.ts: thunks whose calls overlap\<close>

text \<open>
  A hook of the asynchronous decoder can call its thunk again while a call of it is
  pending, as in \<open>await Promise.all([decode(), decode()])\<close>. This section is the thunk of
  a byte string or text string of decodeAsyncIterable.ts, with the functions it calls, as
  asynchronous functions: a call runs to its first \<open>await\<close> and returns a promise, and
  what is left of it runs in jobs of the host's queue.

  A promise of an asynchronous function is resolved, rejected, or waiting at an \<open>await\<close>,
  with the job that takes the function from there to its next \<open>await\<close> or to its end.
  \<open>Unsettled\<close> is not a state of the source: it is the model's answer when the bound on
  the iterations of \<open>allocate\<close> is used up.
\<close>

datatype ('s, 'a) promise =
  Resolved 'a
  | Rejected error
  | Waiting "'s \<Rightarrow> ('s, 'a) promise \<times> 's"
  | Unsettled

type_synonym ('s, 'a) async = "'s \<Rightarrow> ('s, 'a) promise \<times> 's"

text \<open>
  \<open>await p\<close> and what follows it in an asynchronous function, \<open>k\<close>: it runs in a job of
  its own, after the job that has settled \<open>p\<close>.
\<close>

primrec awaitThen :: "('s, 'a) promise \<Rightarrow> ('a \<Rightarrow> ('s, 'b) async) \<Rightarrow> ('s, 'b) promise" where
  "awaitThen (Resolved x) k = Waiting (k x)"
| "awaitThen (Rejected e) k = Waiting (\<lambda>s. (Rejected e, s))"
| "awaitThen (Waiting job) k = Waiting (\<lambda>s. map_prod (\<lambda>p. awaitThen p k) id (job s))"
| "awaitThen Unsettled k = Unsettled"

text \<open>\<open>const x = await f(); ...\<close>: the call of \<open>f\<close> runs at once, to its first \<open>await\<close>.\<close>

definition thenA :: "('s, 'a) async \<Rightarrow> ('a \<Rightarrow> ('s, 'b) async) \<Rightarrow> ('s, 'b) async" where
  "thenA f k = (\<lambda>s. case f s of (p, s') \<Rightarrow> (awaitThen p k, s'))"

text \<open>
  What the thunk works on: the buffer of the decoder, and the variable \<open>value\<close> of the
  call of \<open>decodeValue\<close> that has made the thunk.
\<close>

type_synonym cell = "rope \<times> cbor"

text \<open>
  \<open>allocate(size)\<close>. The source is one whose \<open>next()\<close> is settled when the job that
  awaits it runs.
\<close>

primrec allocateA :: "nat \<Rightarrow> enat \<Rightarrow> (cell, unit) async" where
  "allocateA 0 n = (\<lambda>(r, held). if enat (byteLength r) < n then (Unsettled, (r, held)) else (Resolved (), (r, held)))"
| "allocateA (Suc fuel) n =
     (\<lambda>(r, held).
        if enat (byteLength r) < n then
          (Waiting (\<lambda>(r, held).
             case iter r of
               [] \<Rightarrow> (Rejected StreamEndedPrematurely, (r, held))
             | v # rest \<Rightarrow>
                 allocateA fuel n
                   (r\<lparr>chunks := chunks r @ [v], byteLength := byteLength r + length v, iter := rest\<rparr>, held)),
           (r, held))
        else (Resolved (), (r, held)))"

text \<open>\<open>const array = new Uint8Array(length); this.fill(array); return array\<close>.\<close>

definition fillA :: "enat \<Rightarrow> (cell, byte list) async" where
  "fillA len =
     (\<lambda>(r, held). case advance len r of
                     Ok (bs, r') \<Rightarrow> (Resolved bs, (r', held))
                   | Err e \<Rightarrow> (Rejected e, (r, held))
                   | OutOfFuel \<Rightarrow> (Unsettled, (r, held)))"

text \<open>\<open>decodeBytes(length)\<close>: \<open>await this.allocate(length)\<close>, then the above.\<close>

definition decodeBytesA :: "nat \<Rightarrow> enat \<Rightarrow> (cell, byte list) async" where
  "decodeBytesA fuel len = thenA (allocateA fuel len) (\<lambda>_. fillA len)"

text \<open>
  The thunk of a byte string,
  \<^verbatim>\<open>async () => (value = (value === undefined ? await this.decodeBytes(length) : value))\<close>
  with \<open>VBytes\<close> for \<open>wrap\<close>. The thunk of a text string is the same with
  \<open>decodeString\<close>, which is \<open>decodeBytes\<close> followed by \<open>this.decoder.decode\<close>. The test
  of \<open>value\<close> is made when the thunk is called, the assignment after the \<open>await\<close>.
\<close>

definition thunkA :: "nat \<Rightarrow> (byte list \<Rightarrow> cbor) \<Rightarrow> enat \<Rightarrow> (cell, cbor) async" where
  "thunkA fuel wrap len =
     (\<lambda>(r, held).
        if held = VUndefined then
          thenA (decodeBytesA fuel len) (\<lambda>bs (r, held). (Resolved (wrap bs), (r, wrap bs))) (r, held)
        else (Resolved held, (r, held)))"

text \<open>
  The jobs of the host's queue, for the promises \<open>ps\<close> of calls that await nothing but
  their own reads: \<open>queue\<close> is the order in which the jobs were queued. The job at the
  head takes its promise on, and the promise goes to the end of the queue; a promise that
  is settled leaves the queue. It ends when the queue is empty.
\<close>

primrec jobs :: "nat \<Rightarrow> nat list \<Rightarrow> ('s, 'a) promise list \<Rightarrow> 's \<Rightarrow> ('s, 'a) promise list \<times> 's" where
  "jobs 0 queue ps s = (ps, s)"
| "jobs (Suc fuel) queue ps s =
     (case queue of
        [] \<Rightarrow> (ps, s)
      | i # rest \<Rightarrow>
          (case ps ! i of
             Waiting job \<Rightarrow> (case job s of (p, s') \<Rightarrow> jobs fuel (rest @ [i]) (ps[i := p]) s')
           | _ \<Rightarrow> jobs fuel rest ps s))"

text \<open>
  Two calls, the second made before the first is awaited, as in
  \<open>Promise.all([decode(), decode()])\<close>, and one call, each with the jobs it leaves.
\<close>

definition twoCalls :: "nat \<Rightarrow> ('s, 'a) async \<Rightarrow> 's \<Rightarrow> ('s, 'a) promise list \<times> 's" where
  "twoCalls fuel call s =
     (case call s of (p, s') \<Rightarrow>
        case call s' of (q, s'') \<Rightarrow> jobs fuel [0, 1] [p, q] s'')"

definition oneCall :: "nat \<Rightarrow> ('s, 'a) async \<Rightarrow> 's \<Rightarrow> ('s, 'a) promise list \<times> 's" where
  "oneCall fuel call s = (case call s of (p, s') \<Rightarrow> jobs fuel [0] [p] s')"

section \<open>The wire format\<close>

text \<open>
  Modelled from the spec: the encoder (\<open>Encoder.ts\<close>) is not among the sources, so the
  encoded form of an item is taken from the specification's wire format (RFC 8949,
  definite lengths, major types 0 to 5 and 7). An \<open>item\<close> is an encoded item as a tree:
  each node holds the additional information of its initial byte, the bytes of its argument,
  and its payload or its nested items (for a map: keys and values in turn). \<open>wire\<close> is
  the byte sequence of an item.
\<close>

datatype item =
  IUnsigned nat "byte list"
  | INegative nat "byte list"
  | IBytes nat "byte list" "byte list"
  | IText nat "byte list" "byte list"
  | IArray nat "byte list" "item list"
  | IMap nat "byte list" "item list"
  | ISimple nat
  | IFloat nat "byte list"

text \<open>
  The initial byte \<open>(major_type << 5) | additional_info\<close>, followed by the bytes of the
  argument.
\<close>

definition header :: "nat \<Rightarrow> nat \<Rightarrow> byte list \<Rightarrow> byte list" where
  "header majorType ai arg = of_nat (majorType * 32 + ai) # arg"

fun wire :: "item \<Rightarrow> byte list" where
  "wire (IUnsigned ai arg) = header 0 ai arg"
| "wire (INegative ai arg) = header 1 ai arg"
| "wire (IBytes ai arg payload) = header 2 ai arg @ payload"
| "wire (IText ai arg payload) = header 3 ai arg @ payload"
| "wire (IArray ai arg items) = header 4 ai arg @ concat (map wire items)"
| "wire (IMap ai arg items) = header 5 ai arg @ concat (map wire items)"
| "wire (ISimple ai) = header 7 ai []"
| "wire (IFloat ai payload) = header 7 ai payload"

text \<open>
  The additional information holds the argument (0 to 23) or announces 1, 2, 4 or 8 bytes
  of it (24 to 27), big-endian.
\<close>

definition argOk :: "nat \<Rightarrow> byte list \<Rightarrow> bool" where
  "argOk ai arg =
     (if ai < 24 then arg = []
      else if ai = 24 then length arg = 1
      else if ai = 25 then length arg = 2
      else if ai = 26 then length arg = 4
      else ai = 27 \<and> length arg = 8)"

definition argValue :: "nat \<Rightarrow> byte list \<Rightarrow> nat" where
  "argValue ai arg = (if ai < 24 then ai else bigEndian arg)"

text \<open>
  The items that the decoder with options \<open>opts\<close> accepts, whatever their position:
  integers in the safe range, lengths that match, floats not narrower than
  \<open>minFloatSize\<close>, \<open>undefined\<close> where it is allowed. (Text keys without duplicates, which
  the specification also asks of a map, are not needed by what is proved of these items.)
\<close>

fun wellFormed :: "opts \<Rightarrow> item \<Rightarrow> bool" where
  "wellFormed opts (IUnsigned ai arg) = (argOk ai arg \<and> argValue ai arg \<le> maxSafeInteger)"
| "wellFormed opts (INegative ai arg) = (argOk ai arg \<and> argValue ai arg < maxSafeInteger)"
| "wellFormed opts (IBytes ai arg payload) =
     (argOk ai arg \<and> argValue ai arg \<le> maxSafeInteger \<and> length payload = argValue ai arg)"
| "wellFormed opts (IText ai arg payload) =
     (argOk ai arg \<and> argValue ai arg \<le> maxSafeInteger \<and> length payload = argValue ai arg)"
| "wellFormed opts (IArray ai arg items) =
     (argOk ai arg \<and> argValue ai arg \<le> maxSafeInteger \<and> length items = argValue ai arg \<and>
      (\<forall>it \<in> set items. wellFormed opts it))"
| "wellFormed opts (IMap ai arg items) =
     (argOk ai arg \<and> argValue ai arg \<le> maxSafeInteger \<and> length items = argValue ai arg * 2 \<and>
      (\<forall>it \<in> set items. wellFormed opts it))"
| "wellFormed opts (ISimple ai) = (ai = 20 \<or> ai = 21 \<or> ai = 22 \<or> (ai = 23 \<and> allowUndefined opts))"
| "wellFormed opts (IFloat ai payload) =
     ((ai = 25 \<and> length payload = 2 \<and> minFloatSize opts \<le> 16) \<or>
      (ai = 26 \<and> length payload = 4 \<and> minFloatSize opts \<le> 32) \<or>
      (ai = 27 \<and> length payload = 8))"

text \<open>
  The hook that \<open>decodeValue\<close> calls for an item, with the length (or size) and the type
  it passes, if there is one; \<open>argSize\<close> is the \<open>size\<close> of \<open>getArgument\<close>.
\<close>

definition argSize :: "nat \<Rightarrow> nat" where
  "argSize ai = (if ai \<le> 24 then 1 else if ai = 25 then 2 else if ai = 26 then 4 else 8)"

fun hookCall :: "opts \<Rightarrow> 's decoder \<Rightarrow> item \<Rightarrow> hook option" where
  "hookCall opts d (IUnsigned ai arg) = onValueAt opts (enat (argSize ai)) ''number'' (keyPath d)"
| "hookCall opts d (INegative ai arg) = onValueAt opts (enat (argSize ai)) ''number'' (keyPath d)"
| "hookCall opts d (IBytes ai arg payload) =
     onValueAt opts (enat (argValue ai arg)) ''Uint8Array'' (keyPath d)"
| "hookCall opts d (IText ai arg payload) =
     (if isKey d then onKeyAt opts (enat (argValue ai arg))
      else onValueAt opts (enat (argValue ai arg)) ''string'' (keyPath d))"
| "hookCall opts d (IArray ai arg items) = onValueAt opts (enat (argValue ai arg)) ''array'' (keyPath d)"
| "hookCall opts d (IMap ai arg items) = onValueAt opts (enat (argValue ai arg)) ''object'' (keyPath d)"
| "hookCall opts d (ISimple ai) =
     onValueAt opts 1
       (if ai = 20 \<or> ai = 21 then ''boolean'' else if ai = 22 then ''null'' else ''undefined'')
       (keyPath d)"
| "hookCall opts d (IFloat ai payload) =
     onValueAt opts (if ai = 25 then 2 else if ai = 26 then 4 else 8) ''number'' (keyPath d)"

section \<open>What a hook does with its thunk\<close>

text \<open>
  The result of a hook when every call of its thunk returns \<open>v\<close>: the value it returns,
  or \<open>None\<close> when it throws.
\<close>

primrec answer :: "hook \<Rightarrow> cbor \<Rightarrow> cbor option" where
  "answer (Return r) v = Some r"
| "answer Throw v = None"
| "answer (Call k) v = answer (k v) v"

section \<open>The value of an item tree\<close>

text \<open>
  \<open>withHook hk r\<close>: what decoding an item gives when its hook is \<open>hk\<close> and decoding
  it without a hook gives \<open>r\<close>, a value or an error. A hook that calls its thunk gets the
  value, or the error ends the decoding; the result of the hook replaces the value unless
  it is \<open>undefined\<close>; a hook that does not call its thunk never meets the error.
\<close>

definition withHook :: "hook option \<Rightarrow> error + cbor \<Rightarrow> error + cbor" where
  "withHook hk r =
     (case hk of
        None \<Rightarrow> r
      | Some p \<Rightarrow>
          (case r of
             Inr v \<Rightarrow>
               (case answer p v of
                  None \<Rightarrow> Inl HookError
                | Some val \<Rightarrow> Inr (if val \<noteq> VUndefined then val else v))
           | Inl e \<Rightarrow>
               (case p of
                  Return val \<Rightarrow> if val \<noteq> VUndefined then Inr val else Inl e
                | Throw \<Rightarrow> Inl HookError
                | Call k \<Rightarrow> Inl e)))"

text \<open>Items whose maps have text strings as keys.\<close>

fun isText :: "item \<Rightarrow> bool" where
  "isText (IText ai arg payload) = True"
| "isText _ = False"

fun keysText :: "item list \<Rightarrow> bool" where
  "keysText (key # it # its) = (isText key \<and> keysText its)"
| "keysText its = True"

fun textKeys :: "item \<Rightarrow> bool" where
  "textKeys (IArray ai arg items) = (\<forall>it \<in> set items. textKeys it)"
| "textKeys (IMap ai arg items) = (keysText items \<and> (\<forall>it \<in> set items. textKeys it))"
| "textKeys _ = True"

text \<open>
  \<open>decodeItem h opts k path it\<close>: the value of the item \<open>it\<close> that lies at \<open>path\<close> from the
  root (\<open>k\<close>: as a key of a map). The hook of each item is called with the path of that
  item: \<open>path\<close> for \<open>it\<close> itself and for the keys of a map, \<open>path @ [Index i]\<close> for element
  \<open>i\<close> of an array, \<open>path @ [Name key]\<close> for the value of a map entry, where \<open>key\<close> is what
  decoding the key gave. \<open>decodeElements\<close> and \<open>decodeEntries\<close> take the elements and the
  entries in turn, with the array or the object built so far.
\<close>

fun decodeItem :: "host \<Rightarrow> opts \<Rightarrow> bool \<Rightarrow> key list \<Rightarrow> item \<Rightarrow> error + cbor"
  and decodeElements :: "host \<Rightarrow> opts \<Rightarrow> bool \<Rightarrow> key list \<Rightarrow> nat \<Rightarrow> item list \<Rightarrow> cbor list \<Rightarrow> error + cbor list"
  and decodeEntries :: "host \<Rightarrow> opts \<Rightarrow> key list \<Rightarrow> item list \<Rightarrow> (jsstring \<times> cbor) list \<Rightarrow>
      error + (jsstring \<times> cbor) list"
where
  "decodeItem h opts k path (IUnsigned ai arg) =
     withHook (onValueAt opts (enat (argSize ai)) ''number'' path) (Inr (VNumber (int (argValue ai arg))))"
| "decodeItem h opts k path (INegative ai arg) =
     withHook (onValueAt opts (enat (argSize ai)) ''number'' path)
       (Inr (VNumber (- 1 - int (argValue ai arg))))"
| "decodeItem h opts k path (IBytes ai arg payload) =
     withHook (onValueAt opts (enat (argValue ai arg)) ''Uint8Array'' path) (Inr (VBytes payload))"
| "decodeItem h opts k path (IText ai arg payload) =
     withHook (if k then onKeyAt opts (enat (argValue ai arg))
               else onValueAt opts (enat (argValue ai arg)) ''string'' path)
       (Inr (VString (textDecode h payload)))"
| "decodeItem h opts k path (IArray ai arg items) =
     withHook (onValueAt opts (enat (argValue ai arg)) ''array'' path)
       (if argValue ai arg < 2 ^ 32 then map_sum id VArray (decodeElements h opts k path 0 items [])
        else Inl RangeError)"
| "decodeItem h opts k path (IMap ai arg items) =
     withHook (onValueAt opts (enat (argValue ai arg)) ''object'' path)
       (map_sum id VObject (decodeEntries h opts path items []))"
| "decodeItem h opts k path (ISimple ai) =
     withHook
       (onValueAt opts 1
          (if ai = 20 \<or> ai = 21 then ''boolean'' else if ai = 22 then ''null'' else ''undefined'')
          path)
       (Inr (if ai = 20 then VBoolean False else if ai = 21 then VBoolean True
             else if ai = 22 then VNull else VUndefined))"
| "decodeItem h opts k path (IFloat ai payload) =
     withHook (onValueAt opts (if ai = 25 then 2 else if ai = 26 then 4 else 8) ''number'' path)
       (Inr (VFloat (8 * length payload) (bigEndian payload)))"
| "decodeElements h opts k path i [] acc = Inr acc"
| "decodeElements h opts k path i (it # its) acc =
     (case decodeItem h opts k (path @ [Index i]) it of
        Inl e \<Rightarrow> Inl e
      | Inr v \<Rightarrow> decodeElements h opts k path (Suc i) its (acc @ [v]))"
| "decodeEntries h opts path [] acc = Inr acc"
| "decodeEntries h opts path [key] acc = Inr acc"
| "decodeEntries h opts path (key # it # its) acc =
     (case decodeItem h opts True path key of
        Inl e \<Rightarrow> Inl e
      | Inr (VString name) \<Rightarrow>
          if keyIn h name acc then Inl DuplicateObjectKey
          else
            (case decodeItem h opts False (path @ [Name name]) it of
               Inl e \<Rightarrow> Inl e
             | Inr v \<Rightarrow> decodeEntries h opts path its (assign acc name v))
      | Inr _ \<Rightarrow> Inl NonStringKey)"

text \<open>A value or an error as the result of a run that ends in state \<open>s\<close>.\<close>

definition outcome :: "error + 'a \<Rightarrow> 's \<Rightarrow> ('a \<times> 's) res" where
  "outcome r s = (case r of Inl e \<Rightarrow> Err e | Inr v \<Rightarrow> Ok (v, s))"

text \<open>Hooks to run examples with.\<close>

definition replaceArrays :: "enat \<Rightarrow> string \<Rightarrow> key list \<Rightarrow> hook" where
  "replaceArrays len type path = (if type = ''array'' then Return VNull else Return VUndefined)"

definition twice :: "enat \<Rightarrow> string \<Rightarrow> key list \<Rightarrow> hook" where
  "twice len type path =
     (if type = ''array'' then Call (\<lambda>v. Call (\<lambda>w. Return (VArray [v, w]))) else Return VUndefined)"



section \<open>Decoder.ts with hooks that catch and that write to the key path\<close>

text \<open>
  A host function given as \<open>onValue\<close> or \<open>onKey\<close> can do two things that the hooks
  above do not: call its thunk inside \<open>try\<close> and go on when the thunk has thrown, and
  write to the array \<open>keyPath\<close> that it is handed, which is the array \<open>#env.keyPath\<close> of
  the decoder itself. This section is \<open>decodeValue\<close> and \<open>skipValue\<close> of Decoder.ts once
  more, for such hooks. An exception now comes with the state in which it was thrown,
  from which a hook that catches it goes on. \<open>Stops\<close>, like \<open>OutOfFuel\<close>, is not a result
  of the source.
\<close>

datatype ('a, 's) xres = Returns 'a 's | Throws error 's | Stops






















text \<open>A result without the state of its exception.\<close>

definition forget :: "('a, 's) xres \<Rightarrow> ('a \<times> 's) res" where
  "forget r = (case r of Returns x s \<Rightarrow> Ok (x, s) | Throws e s \<Rightarrow> Err e | Stops \<Rightarrow> OutOfFuel)"

section \<open>Notions used in the statements and proofs\<close>


text \<open>
  \<open>sim R G m1 m2\<close>: from states related by \<open>R\<close>, when \<open>m1\<close> returns into a state that is
  good (\<open>G\<close>), \<open>m2\<close> returns the same value, into a related state; and \<open>m1\<close> reaches a
  good state from good states only. It is used with \<open>G\<close> saying that a decoder on a byte
  array has not read past the end of the array.
\<close>

definition sim :: "('s \<Rightarrow> 't \<Rightarrow> bool) \<Rightarrow> ('s \<Rightarrow> bool) \<Rightarrow> ('s, 'a) m \<Rightarrow> ('t, 'a) m \<Rightarrow> bool" where
  "sim R G m1 m2 =
     ((\<forall>s x s'. m1 s = Ok (x, s') \<longrightarrow> G s' \<longrightarrow> G s) \<and>
      (\<forall>s t x s'. R s t \<longrightarrow> m1 s = Ok (x, s') \<longrightarrow> G s' \<longrightarrow> (\<exists>t'. m2 t = Ok (x, t') \<and> R s' t')))"

definition sameEnv :: "('s \<Rightarrow> 't \<Rightarrow> bool) \<Rightarrow> 's decoder \<Rightarrow> 't decoder \<Rightarrow> bool" where
  "sameEnv R d1 d2 = (R (src d1) (src d2) \<and> isKey d1 = isKey d2 \<and> keyPath d1 = keyPath d2)"

definition onSource :: "('s \<Rightarrow> bool) \<Rightarrow> 's decoder \<Rightarrow> bool" where
  "onSource G d = G (src d)"

definition readerSim :: "('s \<Rightarrow> 't \<Rightarrow> bool) \<Rightarrow> ('s \<Rightarrow> bool) \<Rightarrow> 's reader \<Rightarrow> 't reader \<Rightarrow> bool" where
  "readerSim R G rd1 rd2 =
     ((\<forall>n. sim R G (readConstant rd1 n) (readConstant rd2 n)) \<and>
      (\<forall>len. sim R G (decodeBytes rd1 len) (decodeBytes rd2 len)) \<and>
      (\<forall>len. sim R G (decodeString rd1 len) (decodeString rd2 len)) \<and>
      (\<forall>len. sim R G (skipBytes rd1 len) (skipBytes rd2 len)) \<and>
      (\<forall>k v. duplicate rd2 k v \<longrightarrow> duplicate rd1 k v))"

text \<open>
  The bytes that a streaming decoder has not consumed yet: the rest of the chunks it holds,
  then the chunks the source has not given.
\<close>

definition unread :: "rope \<Rightarrow> byte list" where
  "unread r = drop (offset r) (concat (chunks r)) @ concat (iter r)"

definition headOk :: "nat \<Rightarrow> byte list list \<Rightarrow> bool" where
  "headOk off cs = (case cs of [] \<Rightarrow> off = 0 | c # _ \<Rightarrow> off \<le> length c)"

text \<open>
  The state of a streaming decoder is in order: \<open>byteLength\<close> counts the bytes held and
  not consumed, and \<open>offset\<close> lies within the first chunk held.
\<close>

definition ropeOk :: "rope \<Rightarrow> bool" where
  "ropeOk r =
     (offset r + byteLength r = length (concat (chunks r)) \<and>
      (case chunks r of [] \<Rightarrow> offset r = 0 | c # cs \<Rightarrow> offset r \<le> length c))"

text \<open>
  A streaming decoder and a decoder on \<open>data\<close> at offset \<open>off\<close> have the same bytes left.
\<close>

definition viewOf :: "byte list \<Rightarrow> enat \<Rightarrow> rope \<Rightarrow> bool" where
  "viewOf data off r = (\<exists>n. off = enat n \<and> n \<le> length data \<and> ropeOk r \<and> unread r = drop n data)"

text \<open>
  Decoding a byte array one top-level value at a time with the decoder of \<open>Decoder.ts\<close>:
  \<open>decodeValue()\<close> is called on one \<open>Decoder\<close> as long as \<open>getOffset()\<close> is below
  the length of the data. This loop is not in the source; it is the reference that the
  specification compares the streaming decoders with.
\<close>

definition memNext :: "host \<Rightarrow> opts \<Rightarrow> byte list \<Rightarrow> nat \<Rightarrow> (enat decoder, cbor option) m" where
  "memNext h opts data fuel =
     (\<lambda>d. if src d < enat (length data)
           then andThen (decodeValue (memReader h data) opts fuel) (\<lambda>v. ret (Some v)) d
           else ret None d)"

definition decodeAll :: "host \<Rightarrow> opts \<Rightarrow> byte list \<Rightarrow> cbor list \<times> enat decoder ending" where
  "decodeAll h opts data =
     (let fuel = Suc (length data)
      in consume fuel (memNext h opts data fuel) newDecoder)"

text \<open>
  A host to run examples on: its text decoder is right on ASCII bytes, and \<open>{}\<close>
  inherits the names of \<open>Object.prototype\<close>.
\<close>

definition units :: "string \<Rightarrow> jsstring" where
  "units s = map (\<lambda>c. of_nat (of_char c)) s"

definition asciiHost :: host where
  "asciiHost =
     \<lparr> textDecode = map (\<lambda>b. of_nat (unat b)),
       inherited = (\<lambda>k. k \<in> set (map units
         [''constructor'', ''__defineGetter__'', ''__defineSetter__'', ''hasOwnProperty'',
          ''__lookupGetter__'', ''__lookupSetter__'', ''isPrototypeOf'', ''propertyIsEnumerable'',
          ''toString'', ''valueOf'', ''__proto__'', ''toLocaleString''])) \<rparr>"






section \<open>Properties of getByteLength\<close>

text \<open>
  C7. The claim is that \<open>getByteLength s\<close> is the UTF-8 length of \<open>s\<close> under the
  surrogate convention, for every string. The string of two lead surrogates
  \<open>"\uD800\uD800"\<close> has two unpaired surrogates, 6 bytes; the loop counts the first
  when it meets the second, keeps the second as pending lead, and ends without counting
  it: the branch \<open>2 leads in a row\<close> lacks the end-of-string test that the branch
  \<open>unpaired lead\<close> has.
\<close>

theorem getByteLength_two_leads:
  "getByteLength [0xd800, 0xd800] = Inr 3 \<and> utf8LengthSpec [0xd800, 0xd800] = 6"
  by (simp add: getByteLength_def encodeUtf8_def isLead_def isTrail_def unitLength_def)

section \<open>Running the model\<close>

text \<open>
  The equations of the decoder, applied to a state: the simplifier runs a decoder on a
  concrete input with them, unfolding a recursive call only where it meets a state.
\<close>

declare decodeValue.simps [simp del] skipValue.simps [simp del] forLoop.simps [simp del]

lemmas decodeValue_0 = decodeValue.simps(1) [THEN fun_cong]
lemmas decodeValue_Suc = decodeValue.simps(2) [THEN fun_cong]
lemmas skipValue_0 = skipValue.simps(1) [THEN fun_cong]
lemmas skipValue_Suc = skipValue.simps(2) [THEN fun_cong]
lemmas forLoop_0 = forLoop.simps(1) [THEN fun_cong]
lemmas forLoop_Suc = forLoop.simps(2) [THEN fun_cong]

lemma ret_apply: "ret x s = Ok (x, s)"
  by (simp add: ret_def)

lemma throw_apply: "throw e s = Err e"
  by (simp add: throw_def)

lemma andThen_apply:
  "andThen m f s = (case m s of Ok (x, s') \<Rightarrow> f x s' | Err e \<Rightarrow> Err e | OutOfFuel \<Rightarrow> OutOfFuel)"
  by (simp add: andThen_def)

lemma if_apply: "(if c then f else g) s = (if c then f s else g s)"
  by simp

lemma onSrc_apply:
  "onSrc f d =
     (case f (src d) of Ok (x, s') \<Rightarrow> Ok (x, d\<lparr>src := s'\<rparr>) | Err e \<Rightarrow> Err e | OutOfFuel \<Rightarrow> OutOfFuel)"
  by (simp add: onSrc_def)

lemma getEnv_apply: "getEnv d = Ok ((isKey d, keyPath d), d)"
  by (simp add: getEnv_def)

lemma setIsKey_apply: "setIsKey b d = Ok ((), d\<lparr>isKey := b\<rparr>)"
  by (simp add: setIsKey_def)

lemma pushKey_apply: "pushKey k d = Ok ((), d\<lparr>keyPath := keyPath d @ [k]\<rparr>)"
  by (simp add: pushKey_def)

lemma popKey_apply: "popKey d = Ok ((), d\<lparr>keyPath := butlast (keyPath d)\<rparr>)"
  by (simp add: popKey_def)

lemma uint_apply: "uint rd n d = andThen (onSrc (readConstant rd n)) (\<lambda>bs. ret (bigEndian bs)) d"
  by (simp add: uint_def)

lemma float_apply:
  "float rd n d = andThen (onSrc (readConstant rd n)) (\<lambda>bs. ret (VFloat (8 * n) (bigEndian bs))) d"
  by (simp add: float_def)

lemma getArgument_apply:
  "getArgument rd ai d =
     (if ai < 24 then Ok ((enat ai, None, 1), d)
      else if ai = 24 then andThen (uint rd 1) (\<lambda>v. ret (enat v, None, 1)) d
      else if ai = 25 then andThen (uint rd 2) (\<lambda>v. ret (enat v, None, 2)) d
      else if ai = 26 then andThen (uint rd 4) (\<lambda>v. ret (enat v, None, 4)) d
      else if ai = 27 then
        andThen (uint rd 8) (\<lambda>uint64.
          ret (if maxSafeInteger < uint64 then \<infinity> else enat uint64, Some uint64, 8)) d
      else if ai = 31 then Err IndefiniteLength
      else Err InvalidArgumentEncoding)"
  by (simp add: getArgument_def ret_def throw_def)

lemma memo_apply: "memo dec v d = (if v = VUndefined then dec d else Ok (v, d))"
  by (simp add: memo_def ret_def)

lemma hooked_apply:
  "hooked hk dec skip d =
     (case hk of
        None \<Rightarrow> memo dec VUndefined d
      | Some p \<Rightarrow>
          andThen (runHook p (memo dec) VUndefined) (\<lambda>(val, v).
            if val \<noteq> VUndefined then
              (if v \<noteq> VUndefined then ret val else andThen skip (\<lambda>_. ret val))
            else memo dec v) d)"
  by (simp add: hooked_def split: option.splits)

lemma hookedConst_apply:
  "hookedConst hk v d =
     (case hk of
        None \<Rightarrow> Ok (v, d)
      | Some p \<Rightarrow>
          andThen (runHook p (\<lambda>_. ret v) VUndefined) (\<lambda>(val, _).
            ret (if val = VUndefined then v else val)) d)"
  by (simp add: hookedConst_def ret_def split: option.splits)

lemma enat_case_0: "(case 0 of enat b \<Rightarrow> f b | \<infinity> \<Rightarrow> g) = f 0"
  by (simp add: zero_enat_def)

lemma enat_case_1: "(case 1 of enat b \<Rightarrow> f b | \<infinity> \<Rightarrow> g) = f 1"
  by (simp add: one_enat_def)

lemma enat_case_numeral: "(case numeral k of enat b \<Rightarrow> f b | \<infinity> \<Rightarrow> g) = f (numeral k)"
  by (simp add: numeral_eq_enat)

lemma enat_less_numeral: "(enat n < numeral k) = (n < numeral k)"
  by (simp add: numeral_eq_enat)

lemmas run_simps =
  decodeValue_0 decodeValue_Suc skipValue_0 skipValue_Suc forLoop_0 forLoop_Suc
  ret_apply throw_apply andThen_apply if_apply onSrc_apply getEnv_apply setIsKey_apply
  pushKey_apply popKey_apply uint_apply float_apply getArgument_apply memo_apply hooked_apply
  hookedConst_apply
  enat_case_0 enat_case_1 enat_case_numeral enat_less_numeral
  onValueAt_def onKeyAt_def bigEndian_def Let_def maxSafeInteger_def minSafeInteger_def
  defaultOptions_def

lemmas mem_simps =
  decode_def valueOf_def memReader_def memConstant_def memDecodeBytes_def memDecodeString_def
  memSkipBytes_def keyIn_def newDecoder_def subarray_def

lemmas stream_simps =
  decodeIterable_def decodeAsyncIterable_def newStreamDecoder_def next_value_def streamReader_def
  allocateFill_def streamSkipBytes_def advance_def allocate.simps advanceLoop.simps
  awaitChunk.simps

section \<open>Duplicate keys\<close>

text \<open>
  C1. The claim is that each decoder throws on a map with the same key twice. The map
  \<open>{"a": 1, "a": 2}\<close>, encoded as \<open>A2 61 61 01 61 61 02\<close>: \<open>decode\<close> throws
  \<open>duplicate object key\<close>; the two streaming decoders, whose \<open>decodeValue\<close> has no test
  \<open>key in value\<close>, return the object \<open>{"a": 2}\<close>.
\<close>

theorem streaming_duplicate_key:
  "decodeIterable h defaultOptions [[0xA2, 0x61, 0x61, 0x01, 0x61, 0x61, 0x02]] =
     ([VObject [(textDecode h [0x61], VNumber 2)]],
      Done \<lparr>src = \<lparr>offset = 0, byteLength = 0, chunks = [], iter = [],
                      freed = [[0xA2, 0x61, 0x61, 0x01, 0x61, 0x61, 0x02]]\<rparr>,
            isKey = False, keyPath = []\<rparr>)
   \<and> decodeAsyncIterable h defaultOptions [[0xA2, 0x61, 0x61, 0x01, 0x61, 0x61, 0x02]] =
     ([VObject [(textDecode h [0x61], VNumber 2)]],
      Done \<lparr>src = \<lparr>offset = 0, byteLength = 0, chunks = [], iter = [],
                      freed = [[0xA2, 0x61, 0x61, 0x01, 0x61, 0x61, 0x02]]\<rparr>,
            isKey = False, keyPath = []\<rparr>)
   \<and> decode h defaultOptions [0xA2, 0x61, 0x61, 0x01, 0x61, 0x61, 0x02] = Err DuplicateObjectKey"
proof (intro conjI)
  show "decodeIterable h defaultOptions [[0xA2, 0x61, 0x61, 0x01, 0x61, 0x61, 0x02]] =
     ([VObject [(textDecode h [0x61], VNumber 2)]],
      Done \<lparr>src = \<lparr>offset = 0, byteLength = 0, chunks = [], iter = [],
                      freed = [[0xA2, 0x61, 0x61, 0x01, 0x61, 0x61, 0x02]]\<rparr>,
            isKey = False, keyPath = []\<rparr>)"
    by (simp add: run_simps stream_simps)
  then show "decodeAsyncIterable h defaultOptions [[0xA2, 0x61, 0x61, 0x01, 0x61, 0x61, 0x02]] =
     ([VObject [(textDecode h [0x61], VNumber 2)]],
      Done \<lparr>src = \<lparr>offset = 0, byteLength = 0, chunks = [], iter = [],
                      freed = [[0xA2, 0x61, 0x61, 0x01, 0x61, 0x61, 0x02]]\<rparr>,
            isKey = False, keyPath = []\<rparr>)"
    by (simp only: decodeAsyncIterable_def)
  show "decode h defaultOptions [0xA2, 0x61, 0x61, 0x01, 0x61, 0x61, 0x02] = Err DuplicateObjectKey"
    by (cases "inherited h (textDecode h [0x61])") (simp_all add: run_simps mem_simps)
qed

section \<open>Input that ends within an item\<close>

text \<open>
  C4. The claim is that input ending within an item makes every decoder throw. The bytes
  \<open>42 01\<close> announce a byte string of two bytes and hold one. The streaming decoder
  throws \<open>stream ended prematurely\<close>; \<open>decode\<close> returns the two-byte array
  \<open>[1, 0]\<close>: \<open>decodeBytes\<close> copies the bytes that \<open>subarray\<close> finds into a zeroed
  array of the announced length, and tests nothing.
\<close>

theorem decode_truncated_payload:
  "decode h defaultOptions [0x42, 0x01] = Ok (VBytes [1, 0])
   \<and> decodeIterable h defaultOptions [[0x42, 0x01]] = ([], Thrown StreamEndedPrematurely)"
  by (simp add: run_simps mem_simps stream_simps)

section \<open>onFree\<close>

text \<open>
  C6. The claim is that \<open>onFree\<close> is called once on every chunk that the source gives.
  The source gives an empty chunk and then the chunk \<open>00\<close>; the value \<open>0\<close> is decoded,
  the stream ends, and \<open>onFree\<close> has been called on the second chunk only: the loop of
  \<open>next\<close> drops an empty chunk without a call (\<open>allocate\<close> keeps one, and \<open>advance\<close>
  then frees it).
\<close>

theorem onFree_skips_empty_chunk:
  "decodeAsyncIterable h defaultOptions [[], [0x00]] =
     ([VNumber 0],
      Done \<lparr>src = \<lparr>offset = 0, byteLength = 0, chunks = [], iter = [], freed = [[0x00]]\<rparr>,
            isKey = False, keyPath = []\<rparr>)"
  by (simp add: run_simps stream_simps)

section \<open>The key path\<close>
























section \<open>Two decoders on related byte sources\<close>

lemma simI:
  assumes "\<And>s x s'. m1 s = Ok (x, s') \<Longrightarrow> G s' \<Longrightarrow> G s"
    and "\<And>s t x s'. R s t \<Longrightarrow> m1 s = Ok (x, s') \<Longrightarrow> G s' \<Longrightarrow> \<exists>t'. m2 t = Ok (x, t') \<and> R s' t'"
  shows "sim R G m1 m2"
  using assms unfolding sim_def by blast

lemma sim_back: "sim R G m1 m2 \<Longrightarrow> m1 s = Ok (x, s') \<Longrightarrow> G s' \<Longrightarrow> G s"
  unfolding sim_def by blast

lemma sim_step:
  "sim R G m1 m2 \<Longrightarrow> R s t \<Longrightarrow> m1 s = Ok (x, s') \<Longrightarrow> G s' \<Longrightarrow> \<exists>t'. m2 t = Ok (x, t') \<and> R s' t'"
  unfolding sim_def by blast

lemma sim_ret: "sim R G (ret x) (ret x)"
  by (simp add: sim_def ret_def)

lemma sim_throw: "sim R G (throw e) m2"
  by (simp add: sim_def throw_def)

lemma sim_andThen:
  assumes m: "sim R G m1 m2" and f: "\<And>x. sim R G (f1 x) (f2 x)"
  shows "sim R G (andThen m1 f1) (andThen m2 f2)"
proof (rule simI)
  fix s x s'
  assume run: "andThen m1 f1 s = Ok (x, s')" and g: "G s'"
  from run obtain y s1 where 1: "m1 s = Ok (y, s1)" and 2: "f1 y s1 = Ok (x, s')"
    by (auto simp: andThen_def split: res.splits)
  from sim_back[OF f 2 g] have "G s1" .
  with sim_back[OF m 1] show "G s" .
next
  fix s t x s'
  assume r: "R s t" and run: "andThen m1 f1 s = Ok (x, s')" and g: "G s'"
  from run obtain y s1 where 1: "m1 s = Ok (y, s1)" and 2: "f1 y s1 = Ok (x, s')"
    by (auto simp: andThen_def split: res.splits)
  from sim_back[OF f 2 g] have g1: "G s1" .
  from sim_step[OF m r 1 g1] obtain t1 where 3: "m2 t = Ok (y, t1)" and r1: "R s1 t1" by blast
  from sim_step[OF f r1 2 g] obtain t' where "f2 y t1 = Ok (x, t')" "R s' t'" by blast
  with 3 show "\<exists>t'. andThen m2 f2 t = Ok (x, t') \<and> R s' t'"
    by (simp add: andThen_def)
qed

lemma sim_if: "sim R G a1 a2 \<Longrightarrow> sim R G b1 b2 \<Longrightarrow> sim R G (if c then a1 else b1) (if c then a2 else b2)"
  by simp

lemma sim_if_throw:
  "(c2 \<Longrightarrow> c1) \<Longrightarrow> sim R G b1 b2 \<Longrightarrow> sim R G (if c1 then throw e else b1) (if c2 then throw e else b2)"
  by (auto simp: sim_throw)

lemma sim_prod:
  "(\<And>a b. sim R G (f1 a b) (f2 a b)) \<Longrightarrow> sim R G (case p of (a, b) \<Rightarrow> f1 a b) (case p of (a, b) \<Rightarrow> f2 a b)"
  by (cases p) simp

lemma sim_cbor:
  assumes "\<And>k. sim R G (f1 k) (f2 k)"
  shows "sim R G (case key of VString k \<Rightarrow> f1 k | _ \<Rightarrow> throw e) (case key of VString k \<Rightarrow> f2 k | _ \<Rightarrow> throw e)"
  using assms by (cases key) (simp_all add: sim_throw)

lemma sim_onSrc:
  assumes "sim R G f1 f2"
  shows "sim (sameEnv R) (onSource G) (onSrc f1) (onSrc f2)"
proof (rule simI)
  fix d x d'
  assume "onSrc f1 d = Ok (x, d')" "onSource G d'"
  then show "onSource G d"
    using sim_back[OF assms] by (auto simp: onSrc_def onSource_def split: res.splits)
next
  fix d e x d'
  assume r: "sameEnv R d e" and run: "onSrc f1 d = Ok (x, d')" and g: "onSource G d'"
  from run obtain s' where 1: "f1 (src d) = Ok (x, s')" and d': "d' = d\<lparr>src := s'\<rparr>"
    by (auto simp: onSrc_def split: res.splits)
  from g d' have "G s'" by (simp add: onSource_def)
  from sim_step[OF assms _ 1 this] r obtain t' where "f2 (src e) = Ok (x, t')" "R s' t'"
    by (auto simp: sameEnv_def)
  with r d' show "\<exists>e'. onSrc f2 e = Ok (x, e') \<and> sameEnv R d' e'"
    by (simp add: onSrc_def sameEnv_def)
qed

lemma sim_getEnv: "sim (sameEnv R) (onSource G) getEnv getEnv"
  by (auto simp: sim_def getEnv_def sameEnv_def)

lemma sim_setIsKey: "sim (sameEnv R) (onSource G) (setIsKey b) (setIsKey b)"
  by (auto simp: sim_def setIsKey_def sameEnv_def onSource_def)

lemma sim_pushKey: "sim (sameEnv R) (onSource G) (pushKey k) (pushKey k)"
  by (auto simp: sim_def pushKey_def sameEnv_def onSource_def)

lemma sim_popKey: "sim (sameEnv R) (onSource G) popKey popKey"
  by (auto simp: sim_def popKey_def sameEnv_def onSource_def)

lemma sim_OutOfFuel: "sim R G (\<lambda>s. OutOfFuel) m2"
  by (simp add: sim_def)

lemma sim_forLoop:
  assumes "\<And>i acc. sim R G (body1 i acc) (body2 i acc)"
  shows "n \<le> n' \<Longrightarrow> sim R G (forLoop n len i body1 acc) (forLoop n' len i body2 acc)"
proof (induction n arbitrary: n' i acc)
  case 0
  show ?case
    by (cases n') (simp_all add: forLoop.simps sim_OutOfFuel sim_ret)
next
  case (Suc n)
  then obtain k where n': "n' = Suc k" and "n \<le> k" by (cases n') auto
  then show ?case
    by (simp add: forLoop.simps sim_ret sim_andThen assms Suc.IH)
qed

lemma sim_runHook:
  assumes "\<And>v. sim R G (cb1 v) (cb2 v)"
  shows "sim R G (runHook p cb1 v) (runHook p cb2 v)"
  by (induction p arbitrary: v) (simp_all add: sim_ret sim_throw sim_andThen assms)

lemma sim_memo: "sim R G dec1 dec2 \<Longrightarrow> sim R G (memo dec1 v) (memo dec2 v)"
  by (simp add: memo_def sim_ret)

lemma sim_hooked:
  "sim R G dec1 dec2 \<Longrightarrow> sim R G skip1 skip2 \<Longrightarrow> sim R G (hooked hk dec1 skip1) (hooked hk dec2 skip2)"
  by (auto simp: hooked_def split: option.splits
      intro!: sim_andThen sim_runHook sim_memo sim_prod sim_ret sim_if)

lemma sim_hookedConst: "sim R G (hookedConst hk v) (hookedConst hk v)"
  by (auto simp: hookedConst_def split: option.splits
      intro!: sim_andThen sim_runHook sim_prod sim_ret)

lemma sim_uint:
  "readerSim R G rd1 rd2 \<Longrightarrow> sim (sameEnv R) (onSource G) (uint rd1 n) (uint rd2 n)"
  by (simp add: uint_def readerSim_def sim_andThen sim_onSrc sim_ret)

lemma sim_float:
  "readerSim R G rd1 rd2 \<Longrightarrow> sim (sameEnv R) (onSource G) (float rd1 n) (float rd2 n)"
  by (simp add: float_def readerSim_def sim_andThen sim_onSrc sim_ret)

lemma sim_getArgument:
  "readerSim R G rd1 rd2 \<Longrightarrow>
   sim (sameEnv R) (onSource G) (getArgument rd1 ai) (getArgument rd2 ai)"
  by (simp add: getArgument_def sim_andThen sim_uint sim_ret sim_throw)

lemma sim_skipBytes:
  "readerSim R G rd1 rd2 \<Longrightarrow>
   sim (sameEnv R) (onSource G) (onSrc (skipBytes rd1 len)) (onSrc (skipBytes rd2 len))"
  by (simp add: readerSim_def sim_onSrc)

lemma sim_decodeBytes:
  "readerSim R G rd1 rd2 \<Longrightarrow>
   sim (sameEnv R) (onSource G) (onSrc (decodeBytes rd1 len)) (onSrc (decodeBytes rd2 len))"
  by (simp add: readerSim_def sim_onSrc)

lemma sim_decodeString:
  "readerSim R G rd1 rd2 \<Longrightarrow>
   sim (sameEnv R) (onSource G) (onSrc (decodeString rd1 len)) (onSrc (decodeString rd2 len))"
  by (simp add: readerSim_def sim_onSrc)

lemma sim_duplicate: "readerSim R G rd1 rd2 \<Longrightarrow> duplicate rd2 k v \<Longrightarrow> duplicate rd1 k v"
  by (simp add: readerSim_def)

lemmas sim_rules = sim_ret sim_throw sim_andThen sim_if_throw sim_if sim_prod sim_cbor sim_getEnv
  sim_setIsKey sim_pushKey sim_popKey sim_forLoop sim_hooked sim_hookedConst sim_uint sim_float
  sim_getArgument sim_skipBytes sim_decodeBytes sim_decodeString

lemma sim_skipValue:
  assumes rd: "readerSim R G rd1 rd2"
  shows "n \<le> n' \<Longrightarrow> sim (sameEnv R) (onSource G) (skipValue rd1 opts n) (skipValue rd2 opts n')"
proof (induction n arbitrary: n')
  case 0
  show ?case by (simp add: skipValue.simps sim_OutOfFuel)
next
  case (Suc n)
  then obtain k where n': "n' = Suc k" and le: "n \<le> k" by (cases n') auto
  show ?case
    unfolding n' skipValue.simps Let_def
    by (intro sim_rules rd le Suc.IH)
qed

lemma sim_decodeValue:
  assumes rd: "readerSim R G rd1 rd2"
  shows "n \<le> n' \<Longrightarrow> sim (sameEnv R) (onSource G) (decodeValue rd1 opts n) (decodeValue rd2 opts n')"
proof (induction n arbitrary: n')
  case 0
  show ?case by (simp add: decodeValue.simps sim_OutOfFuel)
next
  case (Suc n)
  then obtain k where n': "n' = Suc k" and le: "n \<le> k" by (cases n') auto
  show ?case
    unfolding n' decodeValue.simps Let_def
    by (intro sim_rules rd le Suc.IH sim_skipValue sim_duplicate[OF rd])
qed








section \<open>Bytes after the first item\<close>




section \<open>The streaming decoder against the decoder on the concatenated bytes\<close>

lemma ropeOk_offset: "ropeOk r \<Longrightarrow> offset r \<le> length (concat (chunks r))"
  by (simp add: ropeOk_def)

lemma length_unread: "ropeOk r \<Longrightarrow> length (unread r) = byteLength r + length (concat (iter r))"
  by (auto simp: ropeOk_def unread_def)

lemma allocate_ok:
  "ropeOk r \<Longrightarrow> len \<le> enat (length (unread r)) \<Longrightarrow>
   \<exists>r'. allocate len r = Ok ((), r') \<and> ropeOk r' \<and> unread r' = unread r \<and> len \<le> enat (byteLength r')
        \<and> freed r' = freed r"
proof (induction len r rule: allocate.induct)
  case (1 n r)
  show ?case
  proof (cases "enat (byteLength r) < n")
    case False
    then show ?thesis using 1 by (simp add: allocate.simps)
  next
    case True
    with 1(2,3) have "iter r \<noteq> []"
      by (auto simp: length_unread)
    then obtain v rest where it: "iter r = v # rest" by (cases "iter r") auto
    let ?r = "r\<lparr>chunks := chunks r @ [v], byteLength := byteLength r + length v, iter := rest\<rparr>"
    have ok: "ropeOk ?r" using 1(2) by (auto simp: ropeOk_def split: list.splits)
    have un: "unread ?r = unread r"
      using ropeOk_offset[OF 1(2)] by (simp add: unread_def it)
    from 1(1)[OF True it ok] un 1(3)
    obtain r' where "allocate n ?r = Ok ((), r')" "ropeOk r'" "unread r' = unread r"
      "n \<le> enat (byteLength r')" "freed r' = freed r"
      by auto
    then show ?thesis using True it by (simp add: allocate.simps)
  qed
qed

lemma advanceLoop_ok:
  assumes "dc = i" "i \<le> length (chunks r)" "copied \<le> len"
    and "len - copied \<le> length (drop (offset r) (concat (drop i (chunks r))))"
    and "headOk (offset r) (drop i (chunks r))"
  shows "\<exists>r' dc'. advanceLoop len i copied dc target r =
            Ok ((target @ take (len - copied) (drop (offset r) (concat (drop i (chunks r)))), dc'), r')
          \<and> chunks r' = chunks r \<and> iter r' = iter r \<and> freed r' = freed r
          \<and> dc' \<le> length (chunks r)
          \<and> drop (offset r') (concat (drop dc' (chunks r))) =
              drop (len - copied) (drop (offset r) (concat (drop i (chunks r))))
          \<and> byteLength r' = byteLength r - (len - copied)
          \<and> headOk (offset r') (drop dc' (chunks r))"
  using assms
proof (induction len i copied dc target r rule: advanceLoop.induct)
  case (1 len i copied dc target r)
  show ?case
  proof (cases "copied < len")
    case False
    with 1(3-) show ?thesis
      by (simp add: advanceLoop.simps)
  next
    case True
    with "1.prems"(4) have "drop i (chunks r) \<noteq> []" by auto
    with "1.prems"(2) have i: "i < length (chunks r)" by auto
    let ?c = "chunks r ! i"
    let ?rest = "concat (drop (Suc i) (chunks r))"
    have split: "drop i (chunks r) = ?c # drop (Suc i) (chunks r)"
      using i by (simp add: Cons_nth_drop_Suc)
    from "1.prems"(5) split have off: "offset r \<le> length ?c" by (simp add: headOk_def)
    have avail: "drop (offset r) (concat (drop i (chunks r))) = drop (offset r) ?c @ ?rest"
      using off by (simp add: split)
    show ?thesis
    proof (cases "length ?c - offset r \<le> len - copied")
      case full: True
      let ?a = "length ?c - offset r"
      let ?r = "r\<lparr>offset := 0, byteLength := byteLength r - ?a\<rparr>"
      have p1: "Suc dc = Suc i" using "1.prems"(1) by simp
      have p2: "Suc i \<le> length (chunks ?r)" using i by simp
      have p3: "copied + ?a \<le> len" using full True by simp
      have p4: "len - (copied + ?a) \<le> length (drop (offset ?r) (concat (drop (Suc i) (chunks ?r))))"
        using "1.prems"(4) avail by simp
      have p5: "headOk (offset ?r) (drop (Suc i) (chunks ?r))"
        by (simp add: headOk_def split: list.splits)
      from "1.IH"(1)[OF True i refl refl refl full p1 p2 p3 p4 p5]
      obtain r' dc' where
        run: "advanceLoop len (Suc i) (copied + ?a) (Suc dc) (target @ drop (offset r) ?c) ?r =
            Ok (((target @ drop (offset r) ?c) @
                 take (len - (copied + ?a)) (drop (offset ?r) (concat (drop (Suc i) (chunks ?r)))), dc'), r')"
        and keep: "chunks r' = chunks ?r" "iter r' = iter ?r" "freed r' = freed ?r" "dc' \<le> length (chunks ?r)"
        and dr: "drop (offset r') (concat (drop dc' (chunks ?r))) =
                 drop (len - (copied + ?a)) (drop (offset ?r) (concat (drop (Suc i) (chunks ?r))))"
        and bl: "byteLength r' = byteLength ?r - (len - (copied + ?a))"
        and hd: "headOk (offset r') (drop dc' (chunks ?r))"
        by blast
      have step: "advanceLoop len i copied dc target r =
          advanceLoop len (Suc i) (copied + ?a) (Suc dc) (target @ drop (offset r) ?c) ?r"
        using True i full by (subst advanceLoop.simps) (simp add: Let_def)
      have t: "take (len - copied) (drop (offset r) ?c @ ?rest) =
               drop (offset r) ?c @ take (len - (copied + ?a)) ?rest"
        using full by simp
      have d: "drop (len - copied) (drop (offset r) ?c @ ?rest) = drop (len - (copied + ?a)) ?rest"
        using full by simp
      have b: "byteLength r' = byteLength r - (len - copied)"
        using bl full True by simp
      have run': "advanceLoop len (Suc i) (copied + ?a) (Suc dc) (target @ drop (offset r) ?c) ?r =
            Ok ((target @ drop (offset r) ?c @ take (len - (copied + ?a)) ?rest, dc'), r')"
        using run by simp
      have res: "advanceLoop len i copied dc target r =
            Ok ((target @ take (len - copied) (drop (offset r) (concat (drop i (chunks r)))), dc'), r')"
        by (simp only: step run' avail t)
      have keep': "chunks r' = chunks r" "iter r' = iter r" "freed r' = freed r" "dc' \<le> length (chunks r)"
        using keep by simp_all
      have dr0: "drop (offset r') (concat (drop dc' (chunks r))) = drop (len - (copied + ?a)) ?rest"
        using dr by simp
      have dr': "drop (offset r') (concat (drop dc' (chunks r))) =
            drop (len - copied) (drop (offset r) (concat (drop i (chunks r))))"
        by (simp only: dr0 avail d)
      have hd': "headOk (offset r') (drop dc' (chunks r))"
        using hd by simp
      show ?thesis
        using res keep' dr' b hd' by blast
    next
      case part: False
      let ?r = "r\<lparr>offset := offset r + (len - copied), byteLength := byteLength r - (len - copied)\<rparr>"
      have "advanceLoop len i copied dc target r =
          advanceLoop len (Suc i) (copied + (len - copied)) dc (target @ take (len - copied) (drop (offset r) ?c)) ?r"
        using True i part by (subst advanceLoop.simps) (simp add: Let_def)
      also have "\<dots> = Ok ((target @ take (len - copied) (drop (offset r) ?c), dc), ?r)"
        using True by (subst advanceLoop.simps) simp
      finally have run: "advanceLoop len i copied dc target r =
          Ok ((target @ take (len - copied) (drop (offset r) ?c), dc), ?r)" .
      have h: "headOk (offset ?r) (drop dc (chunks r))"
        using part off "1.prems"(1) split by (simp add: headOk_def)
      have "drop (len - copied) (drop (offset r) ?c @ ?rest) =
            drop (len - copied) (drop (offset r) (?c @ ?rest))"
        using off by simp
      also have "\<dots> = drop (offset r + (len - copied)) (?c @ ?rest)"
        by (simp only: drop_drop add.commute)
      finally have d0: "drop (len - copied) (drop (offset r) ?c @ ?rest) =
            drop (offset r + (len - copied)) (?c @ ?rest)" .
      have cc: "concat (drop dc (chunks r)) = ?c @ ?rest"
        using "1.prems"(1) split by simp
      have d: "drop (offset ?r) (concat (drop dc (chunks r))) = drop (len - copied) (drop (offset r) ?c @ ?rest)"
        unfolding d0 cc by simp
      have t: "take (len - copied) (drop (offset r) ?c @ ?rest) = take (len - copied) (drop (offset r) ?c)"
        using part by simp
      have res: "advanceLoop len i copied dc target r =
            Ok ((target @ take (len - copied) (drop (offset r) (concat (drop i (chunks r)))), dc), ?r)"
        by (simp only: run avail t)
      have dr': "drop (offset ?r) (concat (drop dc (chunks r))) =
            drop (len - copied) (drop (offset r) (concat (drop i (chunks r))))"
        by (simp only: d avail)
      have "dc \<le> length (chunks r)" using "1.prems"(1,2) by simp
      moreover have "chunks ?r = chunks r" "iter ?r = iter r" "freed ?r = freed r"
        "byteLength ?r = byteLength r - (len - copied)" by simp_all
      ultimately show ?thesis
        using res dr' h by blast
    qed
  qed
qed

lemma headOk_le: "headOk off cs \<Longrightarrow> off \<le> length (concat cs)"
  by (cases cs) (simp_all add: headOk_def)

lemma ropeOk_headOk: "ropeOk r = (offset r + byteLength r = length (concat (chunks r)) \<and> headOk (offset r) (chunks r))"
  by (simp add: ropeOk_def headOk_def)

lemma advance_ok:
  assumes ok: "ropeOk r" and n: "n \<le> byteLength r"
  shows "\<exists>r'. advance (enat n) r = Ok (take n (unread r), r') \<and> ropeOk r' \<and>
           unread r' = drop n (unread r) \<and> byteLength r' = byteLength r - n \<and> iter r' = iter r"
proof -
  let ?avail = "drop (offset r) (concat (chunks r))"
  from ok have len: "length ?avail = byteLength r" and hd: "headOk (offset r) (chunks r)"
    by (auto simp: ropeOk_headOk)
  have p4: "n - 0 \<le> length (drop (offset r) (concat (drop 0 (chunks r))))"
    using n len by simp
  have p5: "headOk (offset r) (drop 0 (chunks r))" using hd by simp
  from advanceLoop_ok[OF refl _ _ p4 p5, of "[]"]
  obtain r1 dc where run: "advanceLoop n 0 0 0 [] r = Ok ((take n ?avail, dc), r1)"
    and keep: "chunks r1 = chunks r" "iter r1 = iter r" "freed r1 = freed r" "dc \<le> length (chunks r)"
    and dr: "drop (offset r1) (concat (drop dc (chunks r))) = drop n ?avail"
    and bl: "byteLength r1 = byteLength r - n"
    and hd1: "headOk (offset r1) (drop dc (chunks r))"
    by auto
  let ?r' = "r1\<lparr>freed := freed r1 @ take dc (chunks r1), chunks := drop dc (chunks r1)\<rparr>"
  have adv: "advance (enat n) r = Ok (take n ?avail, ?r')"
    using n run by (simp add: advance_def)
  have t: "take n (unread r) = take n ?avail"
    using n len by (simp add: unread_def)
  have u: "unread ?r' = drop n (unread r)"
    using n len dr keep by (simp add: unread_def)
  from dr have "length (concat (drop dc (chunks r))) - offset r1 = byteLength r - n"
    using len by (metis length_drop)
  with headOk_le[OF hd1] bl have "offset r1 + byteLength r1 = length (concat (drop dc (chunks r)))"
    by simp
  with hd1 keep have ok': "ropeOk ?r'"
    by (simp add: ropeOk_headOk)
  show ?thesis
    using adv t u ok' bl keep by simp
qed

lemma awaitChunk_ok:
  "ropeOk r \<Longrightarrow>
   \<exists>r'. awaitChunk r = Ok (unread r = [], r') \<and> ropeOk r' \<and> unread r' = unread r"
proof (induction r rule: awaitChunk.induct)
  case (1 r)
  show ?case
  proof (cases "byteLength r = 0")
    case False
    with 1(3) have "unread r \<noteq> []"
      by (auto simp: unread_def ropeOk_def)
    with False 1(3) show ?thesis by (simp add: awaitChunk.simps)
  next
    case True
    with 1(3) have un: "unread r = concat (iter r)"
      by (simp add: unread_def ropeOk_def)
    show ?thesis
    proof (cases "iter r")
      case Nil
      with True un 1(3) show ?thesis by (simp add: awaitChunk.simps)
    next
      case (Cons v rest)
      show ?thesis
      proof (cases "length v > 0")
        case pos: True
        let ?r = "r\<lparr>chunks := chunks r @ [v], byteLength := byteLength r + length v, iter := rest\<rparr>"
        have ok: "ropeOk ?r" using 1(3) by (auto simp: ropeOk_def split: list.splits)
        have un': "unread ?r = unread r"
          using ropeOk_offset[OF 1(3)] by (simp add: unread_def Cons)
        from 1(1)[OF True Cons pos ok] un'
        obtain r' where "awaitChunk ?r = Ok (unread r = [], r')" "ropeOk r'" "unread r' = unread r"
          by auto
        then show ?thesis using True Cons pos by (simp add: awaitChunk.simps)
      next
        case empty: False
        let ?r = "r\<lparr>iter := rest\<rparr>"
        have ok: "ropeOk ?r" using 1(3) by (auto simp: ropeOk_def split: list.splits)
        have un': "unread ?r = unread r"
          using empty by (simp add: unread_def Cons)
        from 1(2)[OF True Cons empty ok] un'
        obtain r' where "awaitChunk ?r = Ok (unread r = [], r')" "ropeOk r'" "unread r' = unread r"
          by auto
        then show ?thesis using True Cons empty by (simp add: awaitChunk.simps)
      qed
    qed
  qed
qed

lemma allocateFill_ok:
  assumes ok: "ropeOk r" and n: "n \<le> length (unread r)"
  shows "\<exists>r'. allocateFill (enat n) r = Ok (take n (unread r), r') \<and> ropeOk r' \<and>
           unread r' = drop n (unread r)"
proof -
  from allocate_ok[OF ok, of "enat n"] n
  obtain r1 where 1: "allocate (enat n) r = Ok ((), r1)" "ropeOk r1" "unread r1 = unread r"
    "n \<le> byteLength r1"
    by auto
  from advance_ok[OF 1(2) 1(4)] 1(3)
  obtain r' where "advance (enat n) r1 = Ok (take n (unread r), r')" "ropeOk r'"
    "unread r' = drop n (unread r)"
    by auto
  with 1(1) show ?thesis by (simp add: allocateFill_def andThen_def)
qed

lemma subarray_slice: "subarray data (enat a) (enat (a + k)) = take k (drop a data)"
  by (simp add: subarray_def)

lemma sim_stream_constant:
  "sim (viewOf data) (\<lambda>off. off \<le> enat (length data)) (memConstant data n) (allocateFill (enat n))"
proof (rule simI)
  fix s x s'
  assume "memConstant data n s = Ok (x, s')"
  then show "s \<le> enat (length data)"
    by (cases s) (auto simp: memConstant_def split: if_splits)
next
  fix s t x s'
  assume r: "viewOf data s t" and run: "memConstant data n s = Ok (x, s')"
  from r obtain a where a: "s = enat a" "a \<le> length data" "ropeOk t" "unread t = drop a data"
    by (auto simp: viewOf_def)
  from run a have b: "a + n \<le> length data" and x: "x = take n (drop a data)" and s': "s' = enat (a + n)"
    by (auto simp: memConstant_def subarray_slice split: if_splits)
  have "n \<le> length (unread t)" using a(4) b by simp
  from allocateFill_ok[OF a(3) this] a(4)
  obtain t' where "allocateFill (enat n) t = Ok (take n (drop a data), t')" "ropeOk t'"
    "unread t' = drop n (drop a data)"
    by auto
  with x s' b show "\<exists>t'. allocateFill (enat n) t = Ok (x, t') \<and> viewOf data s' t'"
    by (auto simp: viewOf_def add.commute)
qed

lemma sim_stream_decodeBytes:
  "sim (viewOf data) (\<lambda>off. off \<le> enat (length data)) (memDecodeBytes data len) (allocateFill len)"
proof (rule simI)
  fix s x s'
  assume "memDecodeBytes data len s = Ok (x, s')" "s' \<le> enat (length data)"
  then show "s \<le> enat (length data)"
    by (cases s; cases len) (auto simp: memDecodeBytes_def Let_def split: if_splits)
next
  fix s t x s'
  assume r: "viewOf data s t" and run: "memDecodeBytes data len s = Ok (x, s')"
    and g: "s' \<le> enat (length data)"
  from r obtain a where a: "s = enat a" "a \<le> length data" "ropeOk t" "unread t = drop a data"
    by (auto simp: viewOf_def)
  from run obtain k where k: "len = enat k" by (cases len) (auto simp: memDecodeBytes_def)
  from run a k g have b: "a + k \<le> length data" and s': "s' = enat (a + k)"
    by (auto simp: memDecodeBytes_def Let_def)
  with run a k have x: "x = take k (drop a data)"
    by (auto simp: memDecodeBytes_def Let_def subarray_slice)
  have "k \<le> length (unread t)" using a(4) b by simp
  from allocateFill_ok[OF a(3) this] a(4)
  obtain t' where "allocateFill (enat k) t = Ok (take k (drop a data), t')" "ropeOk t'"
    "unread t' = drop k (drop a data)"
    by auto
  with x s' b k show "\<exists>t'. allocateFill len t = Ok (x, t') \<and> viewOf data s' t'"
    by (auto simp: viewOf_def add.commute)
qed

lemma sim_stream_decodeString:
  "sim (viewOf data) (\<lambda>off. off \<le> enat (length data)) (memDecodeString h data len)
     (andThen (allocateFill len) (\<lambda>bs. ret (textDecode h bs)))"
proof (rule simI)
  fix s x s'
  assume "memDecodeString h data len s = Ok (x, s')" "s' \<le> enat (length data)"
  then show "s \<le> enat (length data)"
    by (cases s; cases len) (auto simp: memDecodeString_def)
next
  fix s t x s'
  assume r: "viewOf data s t" and run: "memDecodeString h data len s = Ok (x, s')"
    and g: "s' \<le> enat (length data)"
  from r obtain a where a: "s = enat a" "a \<le> length data" "ropeOk t" "unread t = drop a data"
    by (auto simp: viewOf_def)
  from run a g obtain k where k: "len = enat k" by (cases len) (auto simp: memDecodeString_def)
  from run a k g have b: "a + k \<le> length data" and s': "s' = enat (a + k)"
    by (auto simp: memDecodeString_def)
  from run a k have x: "x = textDecode h (take k (drop a data))"
    by (auto simp: memDecodeString_def subarray_slice)
  have "k \<le> length (unread t)" using a(4) b by simp
  from allocateFill_ok[OF a(3) this] a(4)
  obtain t' where "allocateFill (enat k) t = Ok (take k (drop a data), t')" "ropeOk t'"
    "unread t' = drop k (drop a data)"
    by auto
  with x s' b k
  show "\<exists>t'. andThen (allocateFill len) (\<lambda>bs. ret (textDecode h bs)) t = Ok (x, t') \<and> viewOf data s' t'"
    by (auto simp: viewOf_def add.commute andThen_def ret_def)
qed

lemma sim_stream_skipBytes:
  "sim (viewOf data) (\<lambda>off. off \<le> enat (length data)) (memSkipBytes len) (streamSkipBytes len)"
proof (rule simI)
  fix s x s'
  assume "memSkipBytes len s = Ok (x, s')" "s' \<le> enat (length data)"
  then show "s \<le> enat (length data)"
    by (cases s; cases len) (auto simp: memSkipBytes_def)
next
  fix s t x s'
  assume r: "viewOf data s t" and run: "memSkipBytes len s = Ok (x, s')"
    and g: "s' \<le> enat (length data)"
  from r obtain a where a: "s = enat a" "a \<le> length data" "ropeOk t" "unread t = drop a data"
    by (auto simp: viewOf_def)
  from run a g obtain k where k: "len = enat k" by (cases len) (auto simp: memSkipBytes_def)
  from run a k g have b: "a + k \<le> length data" and s': "s' = enat (a + k)"
    by (auto simp: memSkipBytes_def)
  have "k \<le> length (unread t)" using a(4) b by simp
  from allocateFill_ok[OF a(3) this] a(4)
  obtain t' where "allocateFill (enat k) t = Ok (take k (drop a data), t')" "ropeOk t'"
    "unread t' = drop k (drop a data)"
    by auto
  with s' b k
  show "\<exists>t'. streamSkipBytes len t = Ok (x, t') \<and> viewOf data s' t'"
    by (auto simp: viewOf_def add.commute streamSkipBytes_def allocateFill_def andThen_def ret_def
        split: res.splits)
qed

lemma streamReader_sim:
  "readerSim (viewOf data) (\<lambda>off. off \<le> enat (length data)) (memReader h data) (streamReader h)"
  by (simp add: readerSim_def memReader_def streamReader_def sim_stream_constant
      sim_stream_decodeBytes sim_stream_decodeString sim_stream_skipBytes)

lemma next_value_more:
  assumes r: "sameEnv (viewOf data) d1 d2" and more: "src d1 < enat (length data)"
  shows "\<exists>d2'. onSrc awaitChunk d2 = Ok (False, d2') \<and> sameEnv (viewOf data) d1 d2'"
proof -
  from r obtain a where a: "src d1 = enat a" "a \<le> length data" "ropeOk (src d2)"
    "unread (src d2) = drop a data"
    by (auto simp: sameEnv_def viewOf_def)
  from more a have "unread (src d2) \<noteq> []" by simp
  with awaitChunk_ok[OF a(3)] obtain r' where "awaitChunk (src d2) = Ok (False, r')" "ropeOk r'"
    "unread r' = unread (src d2)"
    by auto
  with r a show ?thesis
    by (auto simp: onSrc_def sameEnv_def viewOf_def)
qed

lemma next_value_done:
  assumes r: "sameEnv (viewOf data) d1 d2" and last: "\<not> src d1 < enat (length data)"
  shows "\<exists>d2'. onSrc awaitChunk d2 = Ok (True, d2')"
proof -
  from r obtain a where a: "src d1 = enat a" "a \<le> length data" "ropeOk (src d2)"
    "unread (src d2) = drop a data"
    by (auto simp: sameEnv_def viewOf_def)
  from last a have "unread (src d2) = []" by simp
  with awaitChunk_ok[OF a(3)] obtain r' where "awaitChunk (src d2) = Ok (True, r')"
    by auto
  then show ?thesis
    by (auto simp: onSrc_def)
qed

lemma consume_sim:
  assumes dv: "sim (sameEnv (viewOf data)) (onSource (\<lambda>off. off \<le> enat (length data)))
                 (decodeValue (memReader h data) opts fuel) (decodeValue (streamReader h) opts fuel)"
  shows "consume n (memNext h opts data fuel) d1 = (vs, Done dfin) \<Longrightarrow>
         onSource (\<lambda>off. off \<le> enat (length data)) dfin \<Longrightarrow>
         onSource (\<lambda>off. off \<le> enat (length data)) d1 \<and>
         (\<forall>d2. sameEnv (viewOf data) d1 d2 \<longrightarrow>
            (\<exists>d2'. consume n (next_value h opts fuel) d2 = (vs, Done d2')))"
proof (induction n arbitrary: d1 vs)
  case 0
  then show ?case by simp
next
  case (Suc n)
  let ?G = "onSource (\<lambda>off. off \<le> enat (length data))"
  show ?case
  proof (cases "src d1 < enat (length data)")
    case more: True
    from Suc.prems(1) more obtain v d1' vs' where
      run: "decodeValue (memReader h data) opts fuel d1 = Ok (v, d1')"
      and rest: "consume n (memNext h opts data fuel) d1' = (vs', Done dfin)"
      and vs: "vs = v # vs'"
      by (auto simp: memNext_def andThen_def ret_def split: res.splits option.splits prod.splits)
    from Suc.IH[OF rest Suc.prems(2)]
    have g1: "?G d1'" and ih: "\<And>d2. sameEnv (viewOf data) d1' d2 \<Longrightarrow>
            \<exists>d2'. consume n (next_value h opts fuel) d2 = (vs', Done d2')"
      by auto
    have g: "?G d1" using sim_back[OF dv run g1] .
    have "\<exists>d2'. consume (Suc n) (next_value h opts fuel) d2 = (vs, Done d2')"
      if r: "sameEnv (viewOf data) d1 d2" for d2
    proof -
      from next_value_more[OF r more] obtain d2a where
        aw: "onSrc awaitChunk d2 = Ok (False, d2a)" and ra: "sameEnv (viewOf data) d1 d2a"
        by blast
      from sim_step[OF dv ra run g1] obtain d2b where
        st: "decodeValue (streamReader h) opts fuel d2a = Ok (v, d2b)" and rb: "sameEnv (viewOf data) d1' d2b"
        by blast
      from ih[OF rb] obtain d2' where "consume n (next_value h opts fuel) d2b = (vs', Done d2')"
        by blast
      with aw st vs show ?thesis
        by (simp add: next_value_def andThen_def ret_def)
    qed
    with g show ?thesis by blast
  next
    case last: False
    with Suc.prems have fin: "dfin = d1" "vs = []"
      by (auto simp: memNext_def ret_def)
    have "\<exists>d2'. consume (Suc n) (next_value h opts fuel) d2 = (vs, Done d2')"
      if r: "sameEnv (viewOf data) d1 d2" for d2
    proof -
      from next_value_done[OF r last] obtain d2a where "onSrc awaitChunk d2 = Ok (True, d2a)"
        by blast
      with fin show ?thesis
        by (simp add: next_value_def andThen_def ret_def)
    qed
    with fin Suc.prems(2) show ?thesis by blast
  qed
qed

text \<open>
  What holds of the chunks: when decoding the concatenated bytes one value at a time with
  the decoder on a byte array runs to the end and stops exactly at the end of the data,
  the streaming decoder yields the same values and ends normally, however the bytes are
  cut into chunks (empty chunks included). The premise asks more than valid bytes: the
  decoder on a byte array rejects some valid maps, as the map with the key \<open>toString\<close>
  below shows.
\<close>

theorem chunking_irrelevance:
  assumes all: "decodeAll h opts (concat source) = (vs, Done d)"
    and exact: "src d = enat (length (concat source))"
  shows "\<exists>d'. decodeIterable h opts source = (vs, Done d') \<and>
              decodeAsyncIterable h opts source = (vs, Done d')"
proof -
  let ?data = "concat source"
  let ?fuel = "Suc (length ?data)"
  have dv: "sim (sameEnv (viewOf ?data)) (onSource (\<lambda>off. off \<le> enat (length ?data)))
                 (decodeValue (memReader h ?data) opts ?fuel) (decodeValue (streamReader h) opts ?fuel)"
    by (rule sim_decodeValue[OF streamReader_sim]) simp
  have init: "sameEnv (viewOf ?data) newDecoder (newStreamDecoder source)"
    by (simp add: sameEnv_def viewOf_def newDecoder_def newStreamDecoder_def ropeOk_def unread_def
        zero_enat_def)
  from all have run: "consume ?fuel (memNext h opts ?data ?fuel) newDecoder = (vs, Done d)"
    by (simp add: decodeAll_def Let_def)
  from exact have g: "onSource (\<lambda>off. off \<le> enat (length ?data)) d"
    by (simp add: onSource_def)
  from consume_sim[OF dv run g] init
  obtain d' where "consume ?fuel (next_value h opts ?fuel) (newStreamDecoder source) = (vs, Done d')"
    by blast
  then show ?thesis
    by (auto simp: decodeIterable_def decodeAsyncIterable_def Let_def)
qed

theorem chunking_irrelevance_witness:
  "decodeAll asciiHost defaultOptions (concat [[0x01], [], [0x82, 0x01], [0x02]]) =
     ([VNumber 1, VArray [VNumber 1, VNumber 2]], Done \<lparr>src = enat 4, isKey = False, keyPath = []\<rparr>)
   \<and> src \<lparr>src = enat 4, isKey = False, keyPath = []\<rparr> =
       enat (length (concat [[0x01], [], [0x82, 0x01], [0x02::byte]]))
   \<and> (\<exists>d'. decodeIterable asciiHost defaultOptions [[0x01], [], [0x82, 0x01], [0x02]] =
              ([VNumber 1, VArray [VNumber 1, VNumber 2]], Done d')
            \<and> decodeAsyncIterable asciiHost defaultOptions [[0x01], [], [0x82, 0x01], [0x02]] =
              ([VNumber 1, VArray [VNumber 1, VNumber 2]], Done d'))"
proof -
  have all: "decodeAll asciiHost defaultOptions (concat [[0x01], [], [0x82, 0x01], [0x02]]) =
     ([VNumber 1, VArray [VNumber 1, VNumber 2]], Done \<lparr>src = enat 4, isKey = False, keyPath = []\<rparr>)"
    by (simp add: run_simps mem_simps decodeAll_def memNext_def enat_0_iff)
  have exact: "src \<lparr>src = enat 4, isKey = False, keyPath = []\<rparr> =
       enat (length (concat [[0x01], [], [0x82, 0x01], [0x02::byte]]))"
    by simp
  from chunking_irrelevance[OF all exact] all exact show ?thesis by blast
qed

text \<open>
  C2. The claim is that the streaming decoder yields, for every valid stream and every
  way of cutting it into chunks, the values that the decoder on a byte array gives for the
  concatenated bytes. The map \<open>{"toString": 1}\<close>, encoded as
  \<open>A1 68 74 6F 53 74 72 69 6E 67 01\<close>, is a well-formed item with one text key. The
  decoder on a byte array throws \<open>duplicate object key\<close> on it, because its test
  \<open>key in value\<close> is true of a name that \<open>{}\<close> inherits; the streaming decoder, which
  has no such test, yields the object, in two chunks as in one.
\<close>

theorem inherited_key_diverges:
  "wire (IMap 1 [] [IText 8 [] [0x74, 0x6F, 0x53, 0x74, 0x72, 0x69, 0x6E, 0x67], IUnsigned 1 []]) =
     [0xA1, 0x68, 0x74, 0x6F, 0x53, 0x74, 0x72, 0x69, 0x6E, 0x67, 0x01]
   \<and> wellFormed defaultOptions
         (IMap 1 [] [IText 8 [] [0x74, 0x6F, 0x53, 0x74, 0x72, 0x69, 0x6E, 0x67], IUnsigned 1 []])
   \<and> textKeys (IMap 1 [] [IText 8 [] [0x74, 0x6F, 0x53, 0x74, 0x72, 0x69, 0x6E, 0x67], IUnsigned 1 []])
   \<and> decodeAll asciiHost defaultOptions [0xA1, 0x68, 0x74, 0x6F, 0x53, 0x74, 0x72, 0x69, 0x6E, 0x67, 0x01] =
       ([], Thrown DuplicateObjectKey)
   \<and> decode asciiHost defaultOptions [0xA1, 0x68, 0x74, 0x6F, 0x53, 0x74, 0x72, 0x69, 0x6E, 0x67, 0x01] =
       Err DuplicateObjectKey
   \<and> decodeIterable asciiHost defaultOptions
         [[0xA1, 0x68, 0x74, 0x6F, 0x53], [0x74, 0x72, 0x69, 0x6E, 0x67, 0x01]] =
       ([VObject [(units ''toString'', VNumber 1)]],
        Done \<lparr>src = \<lparr>offset = 0, byteLength = 0, chunks = [], iter = [],
                        freed = [[0xA1, 0x68, 0x74, 0x6F, 0x53], [0x74, 0x72, 0x69, 0x6E, 0x67, 0x01]]\<rparr>,
              isKey = False, keyPath = []\<rparr>)
   \<and> decodeIterable asciiHost defaultOptions
         [[0xA1, 0x68, 0x74, 0x6F, 0x53, 0x74, 0x72, 0x69, 0x6E, 0x67, 0x01]] =
       ([VObject [(units ''toString'', VNumber 1)]],
        Done \<lparr>src = \<lparr>offset = 0, byteLength = 0, chunks = [], iter = [],
                        freed = [[0xA1, 0x68, 0x74, 0x6F, 0x53, 0x74, 0x72, 0x69, 0x6E, 0x67, 0x01]]\<rparr>,
              isKey = False, keyPath = []\<rparr>)"
proof (intro conjI)
  show "wire (IMap 1 [] [IText 8 [] [0x74, 0x6F, 0x53, 0x74, 0x72, 0x69, 0x6E, 0x67], IUnsigned 1 []]) =
     [0xA1, 0x68, 0x74, 0x6F, 0x53, 0x74, 0x72, 0x69, 0x6E, 0x67, 0x01]"
    by (simp add: header_def)
  show "wellFormed defaultOptions
         (IMap 1 [] [IText 8 [] [0x74, 0x6F, 0x53, 0x74, 0x72, 0x69, 0x6E, 0x67], IUnsigned 1 []])"
    by (simp add: argOk_def argValue_def maxSafeInteger_def)
  show "textKeys (IMap 1 [] [IText 8 [] [0x74, 0x6F, 0x53, 0x74, 0x72, 0x69, 0x6E, 0x67], IUnsigned 1 []])"
    by simp
  show "decodeAll asciiHost defaultOptions [0xA1, 0x68, 0x74, 0x6F, 0x53, 0x74, 0x72, 0x69, 0x6E, 0x67, 0x01] =
       ([], Thrown DuplicateObjectKey)"
    by (simp add: run_simps mem_simps decodeAll_def memNext_def enat_0_iff asciiHost_def units_def)
  show "decode asciiHost defaultOptions [0xA1, 0x68, 0x74, 0x6F, 0x53, 0x74, 0x72, 0x69, 0x6E, 0x67, 0x01] =
       Err DuplicateObjectKey"
    by (simp add: run_simps mem_simps asciiHost_def units_def)
  show "decodeIterable asciiHost defaultOptions
         [[0xA1, 0x68, 0x74, 0x6F, 0x53], [0x74, 0x72, 0x69, 0x6E, 0x67, 0x01]] =
       ([VObject [(units ''toString'', VNumber 1)]],
        Done \<lparr>src = \<lparr>offset = 0, byteLength = 0, chunks = [], iter = [],
                        freed = [[0xA1, 0x68, 0x74, 0x6F, 0x53], [0x74, 0x72, 0x69, 0x6E, 0x67, 0x01]]\<rparr>,
              isKey = False, keyPath = []\<rparr>)"
    by (simp add: run_simps stream_simps asciiHost_def units_def)
  show "decodeIterable asciiHost defaultOptions
         [[0xA1, 0x68, 0x74, 0x6F, 0x53, 0x74, 0x72, 0x69, 0x6E, 0x67, 0x01]] =
       ([VObject [(units ''toString'', VNumber 1)]],
        Done \<lparr>src = \<lparr>offset = 0, byteLength = 0, chunks = [], iter = [],
                        freed = [[0xA1, 0x68, 0x74, 0x6F, 0x53, 0x74, 0x72, 0x69, 0x6E, 0x67, 0x01]]\<rparr>,
              isKey = False, keyPath = []\<rparr>)"
    by (simp add: run_simps stream_simps asciiHost_def units_def)
qed

section \<open>Skipping a replaced item\<close>

lemma mem_constant:
  assumes "src d = enat (length pre)"
  shows "onSrc (readConstant (memReader h (pre @ bs @ post)) (length bs)) d =
           Ok (bs, d\<lparr>src := enat (length pre + length bs)\<rparr>)"
  using assms by (simp add: onSrc_def memReader_def memConstant_def subarray_def)

lemma mem_uint:
  assumes "src d = enat (length pre)"
  shows "uint (memReader h (pre @ bs @ post)) (length bs) d =
           Ok (bigEndian bs, d\<lparr>src := enat (length pre + length bs)\<rparr>)"
  using mem_constant[OF assms] by (simp add: uint_def andThen_def ret_def)

lemma mem_skipBytes:
  assumes "src d = enat a"
  shows "onSrc (skipBytes (memReader h data) (enat k)) d = Ok ((), d\<lparr>src := enat (a + k)\<rparr>)"
  using assms by (simp add: onSrc_def memReader_def memSkipBytes_def)

lemma unat_byte: "n < 256 \<Longrightarrow> unat (of_nat n :: byte) = n"
  by (simp add: unat_of_nat)

lemma initialByte:
  assumes "majorType < 8" "ai < 32"
  shows "unat (of_nat (majorType * 32 + ai) :: byte) div 32 = majorType"
    and "unat (of_nat (majorType * 32 + ai) :: byte) mod 32 = ai"
proof -
  have "majorType * 32 + ai < 256" using assms by simp
  then have eq: "unat (of_nat (majorType * 32 + ai) :: byte) = majorType * 32 + ai"
    by (rule unat_byte)
  show "unat (of_nat (majorType * 32 + ai) :: byte) div 32 = majorType"
    unfolding eq using assms by simp
  show "unat (of_nat (majorType * 32 + ai) :: byte) mod 32 = ai"
    unfolding eq using assms by simp
qed

lemma mem_getArgument:
  assumes d: "src d = enat (length pre)" and ok: "argOk ai arg" and safe: "argValue ai arg \<le> maxSafeInteger"
  shows "getArgument (memReader h (pre @ arg @ post)) ai d =
           Ok ((enat (argValue ai arg), if ai = 27 then Some (bigEndian arg) else None, argSize ai),
               d\<lparr>src := enat (length pre + length arg)\<rparr>)"
proof -
  have rd: "uint (memReader h (pre @ arg @ post)) (length arg) d =
           Ok (bigEndian arg, d\<lparr>src := enat (length pre + length arg)\<rparr>)"
    by (rule mem_uint[OF d])
  have "ai < 24 \<or> ai = 24 \<or> ai = 25 \<or> ai = 26 \<or> ai = 27"
    using ok by (auto simp: argOk_def split: if_splits)
  then consider "ai < 24" | "ai = 24" | "ai = 25" | "ai = 26" | "ai = 27"
    by blast
  then show ?thesis
  proof cases
    case 1
    with ok have arg: "arg = []" by (simp add: argOk_def)
    have "d\<lparr>src := enat (length pre)\<rparr> = d" using d by (cases d) simp
    with 1 arg show ?thesis
      by (simp add: getArgument_apply argValue_def argSize_def)
  next
    case 2
    with ok have "length arg = 1" by (simp add: argOk_def)
    with rd have "uint (memReader h (pre @ arg @ post)) 1 d =
           Ok (bigEndian arg, d\<lparr>src := enat (length pre + length arg)\<rparr>)" by simp
    with 2 show ?thesis
      by (simp add: getArgument_apply argValue_def argSize_def andThen_apply ret_apply)
  next
    case 3
    with ok have "length arg = 2" by (simp add: argOk_def)
    with rd have "uint (memReader h (pre @ arg @ post)) 2 d =
           Ok (bigEndian arg, d\<lparr>src := enat (length pre + length arg)\<rparr>)" by simp
    with 3 show ?thesis
      by (simp add: getArgument_apply argValue_def argSize_def andThen_apply ret_apply)
  next
    case 4
    with ok have "length arg = 4" by (simp add: argOk_def)
    with rd have "uint (memReader h (pre @ arg @ post)) 4 d =
           Ok (bigEndian arg, d\<lparr>src := enat (length pre + length arg)\<rparr>)" by simp
    with 4 show ?thesis
      by (simp add: getArgument_apply argValue_def argSize_def andThen_apply ret_apply)
  next
    case 5
    with ok have "length arg = 8" by (simp add: argOk_def)
    with rd have "uint (memReader h (pre @ arg @ post)) 8 d =
           Ok (bigEndian arg, d\<lparr>src := enat (length pre + length arg)\<rparr>)" by simp
    with 5 safe show ?thesis
      by (simp add: getArgument_apply argValue_def argSize_def andThen_apply ret_apply)
  qed
qed


lemma argOk_less: "argOk ai arg \<Longrightarrow> ai < 32"
  by (auto simp: argOk_def split: if_splits)

lemma mem_initial:
  assumes data: "data = pre @ header mt ai arg @ rest" and d: "src d = enat (length pre)"
    and mt: "mt < 8" and ai: "ai < 32"
  obtains ib where "uint (memReader h data) 1 d = Ok (ib, d\<lparr>src := enat (length pre + 1)\<rparr>)"
    "ib div 32 = mt" "ib mod 32 = ai"
proof -
  let ?b = "of_nat (mt * 32 + ai) :: byte"
  have "data = pre @ [?b] @ (arg @ rest)" using data by (simp add: header_def)
  with mem_uint[OF d, of h "[?b]" "arg @ rest"]
  have "uint (memReader h data) 1 d = Ok (unat ?b, d\<lparr>src := enat (length pre + 1)\<rparr>)"
    by (simp add: bigEndian_def)
  with initialByte[OF mt ai] that show thesis by blast
qed

lemma mem_head:
  assumes data: "data = pre @ header mt ai arg @ rest" and d: "src d = enat (length pre)"
    and mt: "mt < 8" and ok: "argOk ai arg" and safe: "argValue ai arg \<le> maxSafeInteger"
  obtains ib where "uint (memReader h data) 1 d = Ok (ib, d\<lparr>src := enat (length pre + 1)\<rparr>)"
    "ib div 32 = mt" "ib mod 32 = ai"
    "getArgument (memReader h data) ai (d\<lparr>src := enat (length pre + 1)\<rparr>) =
       Ok ((enat (argValue ai arg), if ai = 27 then Some (bigEndian arg) else None, argSize ai),
           d\<lparr>src := enat (length pre + 1 + length arg)\<rparr>)"
proof -
  let ?b = "of_nat (mt * 32 + ai) :: byte"
  let ?d1 = "d\<lparr>src := enat (length pre + 1)\<rparr>"
  have data': "data = (pre @ [?b]) @ arg @ rest" using data by (simp add: header_def)
  have "src ?d1 = enat (length (pre @ [?b]))" by simp
  from mem_getArgument[OF this ok safe, of h rest]
  have "getArgument (memReader h data) ai ?d1 =
       Ok ((enat (argValue ai arg), if ai = 27 then Some (bigEndian arg) else None, argSize ai),
           d\<lparr>src := enat (length pre + 1 + length arg)\<rparr>)"
    by (simp add: data')
  with mem_initial[OF data d mt argOk_less[OF ok], of h] that show thesis by blast
qed

lemma length_header: "length (header mt ai arg) = Suc (length arg)"
  by (simp add: header_def)

lemma skip_loop:
  assumes each: "\<And>it pre post d. it \<in> set items \<Longrightarrow> src d = enat (length pre) \<Longrightarrow>
            skipValue (memReader h (pre @ wire it @ post)) opts n d =
              Ok ((), d\<lparr>src := enat (length pre + length (wire it))\<rparr>)"
  shows "data = pre @ concat (map wire items) @ post \<Longrightarrow> src d = enat (length pre) \<Longrightarrow>
         length items \<le> m \<Longrightarrow>
         forLoop m (enat (i + length items)) i (\<lambda>i _. skipValue (memReader h data) opts n) () d =
           Ok ((), d\<lparr>src := enat (length pre + length (concat (map wire items)))\<rparr>)"
  using each
proof (induction items arbitrary: pre d m i)
  case Nil
  have "d\<lparr>src := enat (length pre)\<rparr> = d" using Nil.prems(2) by (cases d) simp
  then show ?case by (cases m) (simp_all add: forLoop_0 forLoop_Suc ret_apply)
next
  case (Cons x xs)
  from Cons.prems(3) obtain m' where m: "m = Suc m'" and le: "length xs \<le> m'" by (cases m) auto
  let ?d1 = "d\<lparr>src := enat (length pre + length (wire x))\<rparr>"
  have data1: "data = pre @ wire x @ (concat (map wire xs) @ post)"
    using Cons.prems(1) by simp
  have first: "skipValue (memReader h data) opts n d = Ok ((), ?d1)"
    unfolding data1 by (rule Cons.prems(4)) (simp_all add: Cons.prems(2))
  have data2: "data = (pre @ wire x) @ concat (map wire xs) @ post"
    using Cons.prems(1) by simp
  have "forLoop m' (enat (Suc i + length xs)) (Suc i) (\<lambda>i _. skipValue (memReader h data) opts n) () ?d1 =
          Ok ((), ?d1\<lparr>src := enat (length (pre @ wire x) + length (concat (map wire xs)))\<rparr>)"
    by (rule Cons.IH[OF data2 _ le]) (simp_all add: Cons.prems(4))
  with first m show ?case
    by (simp add: forLoop_Suc andThen_apply add.assoc)
qed

lemma enat_times_2: "enat n * 2 = enat (n * 2)"
  by (simp add: numeral_eq_enat)

lemma length_wire:
  "length (wire (IUnsigned ai arg)) = Suc (length arg)"
  "length (wire (INegative ai arg)) = Suc (length arg)"
  "length (wire (IBytes ai arg payload)) = Suc (length arg + length payload)"
  "length (wire (IText ai arg payload)) = Suc (length arg + length payload)"
  "length (wire (IArray ai arg items)) = Suc (length arg + length (concat (map wire items)))"
  "length (wire (IMap ai arg items)) = Suc (length arg + length (concat (map wire items)))"
  "length (wire (ISimple ai)) = Suc 0"
  "length (wire (IFloat ai payload)) = Suc (length payload)"
  by (simp_all add: header_def)

lemma wire_nonempty: "0 < length (wire it)"
  by (cases it) (simp_all add: header_def)

lemma length_wire_member: "it \<in> set items \<Longrightarrow> length (wire it) \<le> length (concat (map wire items))"
  by (induction items) (auto simp: le_add2 trans_le_add2)

lemma length_items_le: "length items \<le> length (concat (map wire items))"
proof (induction items)
  case Nil
  show ?case by simp
next
  case (Cons x xs)
  have "length (concat (map wire (x # xs))) = length (wire x) + length (concat (map wire xs))"
    by simp
  with wire_nonempty[of x] Cons show ?case
    unfolding list.size by linarith
qed

lemma skip_container:
  assumes ih: "\<And>it pre post d n. it \<in> set items \<Longrightarrow> wellFormed opts it \<Longrightarrow>
            src d = enat (length pre) \<Longrightarrow> length (wire it) \<le> n \<Longrightarrow>
            skipValue (memReader h (pre @ wire it @ post)) opts n d =
              Ok ((), d\<lparr>src := enat (length pre + length (wire it))\<rparr>)"
    and wf: "\<forall>it \<in> set items. wellFormed opts it"
    and data: "data = pre @ concat (map wire items) @ post"
    and d: "src d = enat (length pre)"
    and k: "length (concat (map wire items)) \<le> k"
  shows "forLoop k (enat (length items)) 0 (\<lambda>i _. skipValue (memReader h data) opts k) () d =
           Ok ((), d\<lparr>src := enat (length pre + length (concat (map wire items)))\<rparr>)"
proof -
  have each: "skipValue (memReader h (pre @ wire it @ post)) opts k d =
              Ok ((), d\<lparr>src := enat (length pre + length (wire it))\<rparr>)"
    if "it \<in> set items" "src d = enat (length pre)" for it pre post d
    using that wf k length_wire_member[OF that(1)] by (intro ih) auto
  from length_items_le[of items] k have "length items \<le> k" by simp
  from skip_loop[of items h opts k data pre post d k 0, OF each data d this]
  show ?thesis by simp
qed

lemma skip_item:
  "wellFormed opts it \<Longrightarrow> src d = enat (length pre) \<Longrightarrow> length (wire it) \<le> n \<Longrightarrow>
   skipValue (memReader h (pre @ wire it @ post)) opts n d =
     Ok ((), d\<lparr>src := enat (length pre + length (wire it))\<rparr>)"
proof (induction it arbitrary: pre post d n)
  case (IUnsigned ai arg)
  from IUnsigned.prems(3) obtain k where n: "n = Suc k" by (cases n) (auto simp: header_def)
  from IUnsigned.prems(1) have ok: "argOk ai arg" and safe: "argValue ai arg \<le> maxSafeInteger" by auto
  have data: "pre @ wire (IUnsigned ai arg) @ post = pre @ header 0 ai arg @ post" by simp
  from mem_head[OF data IUnsigned.prems(2) _ ok safe, of h] obtain ib where
    "uint (memReader h (pre @ wire (IUnsigned ai arg) @ post)) 1 d = Ok (ib, d\<lparr>src := enat (length pre + 1)\<rparr>)"
    "ib div 32 = 0" "ib mod 32 = ai"
    "getArgument (memReader h (pre @ wire (IUnsigned ai arg) @ post)) ai (d\<lparr>src := enat (length pre + 1)\<rparr>) =
       Ok ((enat (argValue ai arg), if ai = 27 then Some (bigEndian arg) else None, argSize ai),
           d\<lparr>src := enat (length pre + 1 + length arg)\<rparr>)"
    by auto
  then show ?case
    unfolding n by (simp add: skipValue_Suc andThen_apply ret_apply Let_def length_wire del: wire.simps)
next
  case (INegative ai arg)
  from INegative.prems(3) obtain k where n: "n = Suc k" by (cases n) (auto simp: header_def)
  from INegative.prems(1) have ok: "argOk ai arg" and safe: "argValue ai arg \<le> maxSafeInteger" by auto
  have data: "pre @ wire (INegative ai arg) @ post = pre @ header 1 ai arg @ post" by simp
  from mem_head[OF data INegative.prems(2) _ ok safe, of h] obtain ib where
    "uint (memReader h (pre @ wire (INegative ai arg) @ post)) 1 d = Ok (ib, d\<lparr>src := enat (length pre + 1)\<rparr>)"
    "ib div 32 = 1" "ib mod 32 = ai"
    "getArgument (memReader h (pre @ wire (INegative ai arg) @ post)) ai (d\<lparr>src := enat (length pre + 1)\<rparr>) =
       Ok ((enat (argValue ai arg), if ai = 27 then Some (bigEndian arg) else None, argSize ai),
           d\<lparr>src := enat (length pre + 1 + length arg)\<rparr>)"
    by auto
  then show ?case
    unfolding n by (simp add: skipValue_Suc andThen_apply ret_apply Let_def length_wire del: wire.simps)
next
  case (IBytes ai arg payload)
  from IBytes.prems(3) obtain k where n: "n = Suc k" by (cases n) (auto simp: header_def)
  from IBytes.prems(1) have ok: "argOk ai arg" and safe: "argValue ai arg \<le> maxSafeInteger"
    and len: "length payload = argValue ai arg" by auto
  have data: "pre @ wire (IBytes ai arg payload) @ post = pre @ header 2 ai arg @ (payload @ post)" by simp
  from mem_head[OF data IBytes.prems(2) _ ok safe, of h] obtain ib where
    "uint (memReader h (pre @ wire (IBytes ai arg payload) @ post)) 1 d = Ok (ib, d\<lparr>src := enat (length pre + 1)\<rparr>)"
    "ib div 32 = 2" "ib mod 32 = ai"
    "getArgument (memReader h (pre @ wire (IBytes ai arg payload) @ post)) ai (d\<lparr>src := enat (length pre + 1)\<rparr>) =
       Ok ((enat (argValue ai arg), if ai = 27 then Some (bigEndian arg) else None, argSize ai),
           d\<lparr>src := enat (length pre + 1 + length arg)\<rparr>)"
    by auto
  then show ?case
    unfolding n
    by (simp add: skipValue_Suc andThen_apply ret_apply Let_def length_wire mem_skipBytes len
        add.assoc del: wire.simps)
next
  case (IText ai arg payload)
  from IText.prems(3) obtain k where n: "n = Suc k" by (cases n) (auto simp: header_def)
  from IText.prems(1) have ok: "argOk ai arg" and safe: "argValue ai arg \<le> maxSafeInteger"
    and len: "length payload = argValue ai arg" by auto
  have data: "pre @ wire (IText ai arg payload) @ post = pre @ header 3 ai arg @ (payload @ post)" by simp
  from mem_head[OF data IText.prems(2) _ ok safe, of h] obtain ib where
    "uint (memReader h (pre @ wire (IText ai arg payload) @ post)) 1 d = Ok (ib, d\<lparr>src := enat (length pre + 1)\<rparr>)"
    "ib div 32 = 3" "ib mod 32 = ai"
    "getArgument (memReader h (pre @ wire (IText ai arg payload) @ post)) ai (d\<lparr>src := enat (length pre + 1)\<rparr>) =
       Ok ((enat (argValue ai arg), if ai = 27 then Some (bigEndian arg) else None, argSize ai),
           d\<lparr>src := enat (length pre + 1 + length arg)\<rparr>)"
    by auto
  then show ?case
    unfolding n
    by (simp add: skipValue_Suc andThen_apply ret_apply Let_def length_wire mem_skipBytes len
        add.assoc del: wire.simps)
next
  case (IArray ai arg items)
  from IArray.prems(3) obtain k where n: "n = Suc k" by (cases n) (auto simp: header_def)
  from IArray.prems(1) have ok: "argOk ai arg" and safe: "argValue ai arg \<le> maxSafeInteger"
    and len: "length items = argValue ai arg" and wf: "\<forall>it \<in> set items. wellFormed opts it" by auto
  let ?data = "pre @ wire (IArray ai arg items) @ post"
  let ?d2 = "d\<lparr>src := enat (length pre + 1 + length arg)\<rparr>"
  have data: "?data = pre @ header 4 ai arg @ (concat (map wire items) @ post)" by simp
  from mem_head[OF data IArray.prems(2) _ ok safe, of h] obtain ib where hd:
    "uint (memReader h ?data) 1 d = Ok (ib, d\<lparr>src := enat (length pre + 1)\<rparr>)"
    "ib div 32 = 4" "ib mod 32 = ai"
    "getArgument (memReader h ?data) ai (d\<lparr>src := enat (length pre + 1)\<rparr>) =
       Ok ((enat (argValue ai arg), if ai = 27 then Some (bigEndian arg) else None, argSize ai), ?d2)"
    by auto
  have data2: "?data = (pre @ header 4 ai arg) @ concat (map wire items) @ post" by simp
  have d2: "src ?d2 = enat (length (pre @ header 4 ai arg))" by (simp add: length_header)
  have k: "length (concat (map wire items)) \<le> k"
    using IArray.prems(3) n by (simp add: length_header)
  have loop: "forLoop k (enat (length items)) 0 (\<lambda>i _. skipValue (memReader h ?data) opts k) () ?d2 =
           Ok ((), ?d2\<lparr>src := enat (length (pre @ header 4 ai arg) + length (concat (map wire items)))\<rparr>)"
    by (rule skip_container[OF IArray.IH wf data2 d2 k])
  from hd len loop show ?case
    unfolding n
    by (simp add: skipValue_Suc andThen_apply ret_apply Let_def length_wire length_header
        add.assoc del: wire.simps)
next
  case (IMap ai arg items)
  from IMap.prems(3) obtain k where n: "n = Suc k" by (cases n) (auto simp: header_def)
  from IMap.prems(1) have ok: "argOk ai arg" and safe: "argValue ai arg \<le> maxSafeInteger"
    and len: "length items = argValue ai arg * 2" and wf: "\<forall>it \<in> set items. wellFormed opts it" by auto
  let ?data = "pre @ wire (IMap ai arg items) @ post"
  let ?d2 = "d\<lparr>src := enat (length pre + 1 + length arg)\<rparr>"
  have data: "?data = pre @ header 5 ai arg @ (concat (map wire items) @ post)" by simp
  from mem_head[OF data IMap.prems(2) _ ok safe, of h] obtain ib where hd:
    "uint (memReader h ?data) 1 d = Ok (ib, d\<lparr>src := enat (length pre + 1)\<rparr>)"
    "ib div 32 = 5" "ib mod 32 = ai"
    "getArgument (memReader h ?data) ai (d\<lparr>src := enat (length pre + 1)\<rparr>) =
       Ok ((enat (argValue ai arg), if ai = 27 then Some (bigEndian arg) else None, argSize ai), ?d2)"
    by auto
  have data2: "?data = (pre @ header 5 ai arg) @ concat (map wire items) @ post" by simp
  have d2: "src ?d2 = enat (length (pre @ header 5 ai arg))" by (simp add: length_header)
  have k: "length (concat (map wire items)) \<le> k"
    using IMap.prems(3) n by (simp add: length_header)
  have loop: "forLoop k (enat (length items)) 0 (\<lambda>i _. skipValue (memReader h ?data) opts k) () ?d2 =
           Ok ((), ?d2\<lparr>src := enat (length (pre @ header 5 ai arg) + length (concat (map wire items)))\<rparr>)"
    by (rule skip_container[OF IMap.IH wf data2 d2 k])
  from hd len loop show ?case
    unfolding n
    by (simp add: skipValue_Suc andThen_apply ret_apply Let_def length_wire length_header
        add.assoc enat_times_2 del: wire.simps)
next
  case (ISimple ai)
  from ISimple.prems(3) obtain k where n: "n = Suc k" by (cases n) (auto simp: header_def)
  from ISimple.prems(1) have ai: "ai = 20 \<or> ai = 21 \<or> ai = 22 \<or> (ai = 23 \<and> allowUndefined opts)"
    by simp
  then have "ai < 32" by auto
  have data: "pre @ wire (ISimple ai) @ post = pre @ header 7 ai [] @ post" by simp
  from mem_initial[OF data ISimple.prems(2) _ \<open>ai < 32\<close>, of h] obtain ib where
    "uint (memReader h (pre @ wire (ISimple ai) @ post)) 1 d = Ok (ib, d\<lparr>src := enat (length pre + 1)\<rparr>)"
    "ib div 32 = 7" "ib mod 32 = ai"
    by auto
  with ai show ?case
    unfolding n
    by (auto simp add: skipValue_Suc andThen_apply ret_apply throw_apply Let_def length_wire
        simp del: wire.simps)
next
  case (IFloat ai payload)
  from IFloat.prems(3) obtain k where n: "n = Suc k" by (cases n) (auto simp: header_def)
  from IFloat.prems(1) have ai: "(ai = 25 \<and> length payload = 2) \<or> (ai = 26 \<and> length payload = 4) \<or>
      (ai = 27 \<and> length payload = 8)"
    by auto
  then have "ai < 32" by auto
  have data: "pre @ wire (IFloat ai payload) @ post = pre @ header 7 ai payload @ post" by simp
  from mem_initial[OF data IFloat.prems(2) _ \<open>ai < 32\<close>, of h] obtain ib where
    "uint (memReader h (pre @ wire (IFloat ai payload) @ post)) 1 d = Ok (ib, d\<lparr>src := enat (length pre + 1)\<rparr>)"
    "ib div 32 = 7" "ib mod 32 = ai"
    by auto
  with ai show ?case
    unfolding n
    by (auto simp add: skipValue_Suc andThen_apply ret_apply Let_def length_wire
        mem_skipBytes[where a = "length pre + 1"] numeral_eq_enat simp del: wire.simps)
qed


lemma hookedConst_Return: "r \<noteq> VUndefined \<Longrightarrow> hookedConst (Some (Return r)) v d = Ok (r, d)"
  by (simp add: hookedConst_apply andThen_apply ret_apply)

lemma hooked_Return:
  "r \<noteq> VUndefined \<Longrightarrow> hooked (Some (Return r)) dec skip d = andThen skip (\<lambda>_. ret r) d"
  by (simp add: hooked_apply andThen_apply ret_apply)

lemma mem_float:
  assumes "src d = enat (length pre)"
  shows "float (memReader h (pre @ bs @ post)) (length bs) d =
           Ok (VFloat (8 * length bs) (bigEndian bs), d\<lparr>src := enat (length pre + length bs)\<rparr>)"
  using mem_constant[OF assms] by (simp add: float_def andThen_def ret_def)

lemma safe_unsigned:
  "argValue ai arg \<le> maxSafeInteger \<Longrightarrow>
   \<not> ((if ai = 27 then Some (bigEndian arg) else None) \<noteq> None \<and>
      maxSafeInteger < the (if ai = 27 then Some (bigEndian arg) else None))"
  by (auto simp: argValue_def)

lemma safe_negative:
  "argValue ai arg < maxSafeInteger \<Longrightarrow>
   \<not> ((if ai = 27 then Some (bigEndian arg) else None) \<noteq> None \<and>
      - 1 - int (the (if ai = 27 then Some (bigEndian arg) else None)) < minSafeInteger)"
  by (auto simp: argValue_def maxSafeInteger_def minSafeInteger_def)

text \<open>
  C3. When the hook called for a well-formed item returns a replacement \<open>r\<close> without
  calling its thunk, \<open>decodeValue\<close> returns \<open>r\<close> and leaves the offset exactly behind
  the bytes of the item, header, payload and nested items included. The recursion bound
  \<open>Suc fuel\<close> is any bound above the length of the item, as the bound that \<open>decode\<close>
  gives is.
\<close>

theorem replacement_skips_item:
  assumes wf: "wellFormed opts it" and hook: "hookCall opts d it = Some (Return r)"
    and r: "r \<noteq> VUndefined" and d: "src d = enat (length pre)" and fuel: "length (wire it) \<le> fuel"
  shows "decodeValue (memReader h (pre @ wire it @ post)) opts (Suc fuel) d =
           Ok (r, d\<lparr>src := enat (length pre + length (wire it))\<rparr>)"
proof (cases it)
  case (IUnsigned ai arg)
  from wf IUnsigned have ok: "argOk ai arg" and safe: "argValue ai arg \<le> maxSafeInteger" by auto
  have data: "pre @ wire it @ post = pre @ header 0 ai arg @ post" using IUnsigned by simp
  from mem_head[OF data d _ ok safe, of h] obtain ib where
    "uint (memReader h (pre @ wire it @ post)) 1 d = Ok (ib, d\<lparr>src := enat (length pre + 1)\<rparr>)"
    "ib div 32 = 0" "ib mod 32 = ai"
    "getArgument (memReader h (pre @ wire it @ post)) ai (d\<lparr>src := enat (length pre + 1)\<rparr>) =
       Ok ((enat (argValue ai arg), if ai = 27 then Some (bigEndian arg) else None, argSize ai),
           d\<lparr>src := enat (length pre + 1 + length arg)\<rparr>)"
    by auto
  moreover from hook IUnsigned
  have "onValueAt opts (enat (argSize ai)) ''number'' (keyPath d) = Some (Return r)" by simp
  moreover have "length (wire it) = Suc (length arg)" using IUnsigned by (simp add: length_header)
  ultimately show ?thesis
    using safe_unsigned[OF safe, of ] r
    by (simp add: decodeValue_Suc andThen_apply getEnv_apply throw_apply Let_def hookedConst_Return
        del: wire.simps)
next
  case (INegative ai arg)
  from wf INegative have ok: "argOk ai arg" and safe: "argValue ai arg < maxSafeInteger" by auto
  then have safe': "argValue ai arg \<le> maxSafeInteger" by simp
  have data: "pre @ wire it @ post = pre @ header 1 ai arg @ post" using INegative by simp
  from mem_head[OF data d _ ok safe', of h] obtain ib where
    "uint (memReader h (pre @ wire it @ post)) 1 d = Ok (ib, d\<lparr>src := enat (length pre + 1)\<rparr>)"
    "ib div 32 = 1" "ib mod 32 = ai"
    "getArgument (memReader h (pre @ wire it @ post)) ai (d\<lparr>src := enat (length pre + 1)\<rparr>) =
       Ok ((enat (argValue ai arg), if ai = 27 then Some (bigEndian arg) else None, argSize ai),
           d\<lparr>src := enat (length pre + 1 + length arg)\<rparr>)"
    by auto
  moreover from hook INegative
  have "onValueAt opts (enat (argSize ai)) ''number'' (keyPath d) = Some (Return r)" by simp
  moreover have "length (wire it) = Suc (length arg)" using INegative by (simp add: length_header)
  ultimately show ?thesis
    using safe_negative[OF safe] r
    by (simp add: decodeValue_Suc andThen_apply getEnv_apply throw_apply Let_def hookedConst_Return
        del: wire.simps)
next
  case (IBytes ai arg payload)
  from wf IBytes have ok: "argOk ai arg" and safe: "argValue ai arg \<le> maxSafeInteger"
    and len: "length payload = argValue ai arg" by auto
  have data: "pre @ wire it @ post = pre @ header 2 ai arg @ (payload @ post)" using IBytes by simp
  from mem_head[OF data d _ ok safe, of h] obtain ib where
    "uint (memReader h (pre @ wire it @ post)) 1 d = Ok (ib, d\<lparr>src := enat (length pre + 1)\<rparr>)"
    "ib div 32 = 2" "ib mod 32 = ai"
    "getArgument (memReader h (pre @ wire it @ post)) ai (d\<lparr>src := enat (length pre + 1)\<rparr>) =
       Ok ((enat (argValue ai arg), if ai = 27 then Some (bigEndian arg) else None, argSize ai),
           d\<lparr>src := enat (length pre + 1 + length arg)\<rparr>)"
    by auto
  moreover from hook IBytes
  have "onValueAt opts (enat (argValue ai arg)) ''Uint8Array'' (keyPath d) = Some (Return r)" by simp
  moreover have "length (wire it) = Suc (length arg + length payload)" using IBytes by (simp add: length_header)
  ultimately show ?thesis
    using r len
    by (simp add: decodeValue_Suc andThen_apply getEnv_apply ret_apply Let_def hooked_Return
        mem_skipBytes add.assoc del: wire.simps)
next
  case (IText ai arg payload)
  from wf IText have ok: "argOk ai arg" and safe: "argValue ai arg \<le> maxSafeInteger"
    and len: "length payload = argValue ai arg" by auto
  have data: "pre @ wire it @ post = pre @ header 3 ai arg @ (payload @ post)" using IText by simp
  from mem_head[OF data d _ ok safe, of h] obtain ib where
    "uint (memReader h (pre @ wire it @ post)) 1 d = Ok (ib, d\<lparr>src := enat (length pre + 1)\<rparr>)"
    "ib div 32 = 3" "ib mod 32 = ai"
    "getArgument (memReader h (pre @ wire it @ post)) ai (d\<lparr>src := enat (length pre + 1)\<rparr>) =
       Ok ((enat (argValue ai arg), if ai = 27 then Some (bigEndian arg) else None, argSize ai),
           d\<lparr>src := enat (length pre + 1 + length arg)\<rparr>)"
    by auto
  moreover from hook IText
  have "(if isKey d then onKeyAt opts (enat (argValue ai arg))
         else onValueAt opts (enat (argValue ai arg)) ''string'' (keyPath d)) = Some (Return r)" by simp
  moreover have "length (wire it) = Suc (length arg + length payload)" using IText by (simp add: length_header)
  ultimately show ?thesis
    using r len
    by (simp add: decodeValue_Suc andThen_apply getEnv_apply ret_apply Let_def hooked_Return
        mem_skipBytes add.assoc del: wire.simps)
next
  case (IArray ai arg items)
  from wf IArray have ok: "argOk ai arg" and safe: "argValue ai arg \<le> maxSafeInteger"
    and len: "length items = argValue ai arg" and wfs: "\<forall>it \<in> set items. wellFormed opts it" by auto
  let ?data = "pre @ wire it @ post"
  let ?d2 = "d\<lparr>src := enat (length pre + 1 + length arg)\<rparr>"
  have data: "?data = pre @ header 4 ai arg @ (concat (map wire items) @ post)" using IArray by simp
  from mem_head[OF data d _ ok safe, of h] obtain ib where hd:
    "uint (memReader h ?data) 1 d = Ok (ib, d\<lparr>src := enat (length pre + 1)\<rparr>)"
    "ib div 32 = 4" "ib mod 32 = ai"
    "getArgument (memReader h ?data) ai (d\<lparr>src := enat (length pre + 1)\<rparr>) =
       Ok ((enat (argValue ai arg), if ai = 27 then Some (bigEndian arg) else None, argSize ai), ?d2)"
    by auto
  have data2: "?data = (pre @ header 4 ai arg) @ concat (map wire items) @ post" using IArray by simp
  have d2: "src ?d2 = enat (length (pre @ header 4 ai arg))" by (simp add: length_header)
  have lw: "length (wire it) = Suc (length arg + length (concat (map wire items)))"
    using IArray by (simp add: length_header)
  with fuel have k: "length (concat (map wire items)) \<le> fuel" by simp
  have loop: "forLoop fuel (enat (length items)) 0 (\<lambda>i _. skipValue (memReader h ?data) opts fuel) () ?d2 =
           Ok ((), ?d2\<lparr>src := enat (length (pre @ header 4 ai arg) + length (concat (map wire items)))\<rparr>)"
    by (rule skip_container[OF skip_item wfs data2 d2 k])
  from hook IArray
  have hk: "onValueAt opts (enat (argValue ai arg)) ''array'' (keyPath d) = Some (Return r)" by simp
  from hd len loop hk lw r show ?thesis
    by (simp add: decodeValue_Suc andThen_apply getEnv_apply ret_apply Let_def hooked_Return
        length_header add.assoc del: wire.simps)
next
  case (IMap ai arg items)
  from wf IMap have ok: "argOk ai arg" and safe: "argValue ai arg \<le> maxSafeInteger"
    and len: "length items = argValue ai arg * 2" and wfs: "\<forall>it \<in> set items. wellFormed opts it" by auto
  let ?data = "pre @ wire it @ post"
  let ?d2 = "d\<lparr>src := enat (length pre + 1 + length arg)\<rparr>"
  have data: "?data = pre @ header 5 ai arg @ (concat (map wire items) @ post)" using IMap by simp
  from mem_head[OF data d _ ok safe, of h] obtain ib where hd:
    "uint (memReader h ?data) 1 d = Ok (ib, d\<lparr>src := enat (length pre + 1)\<rparr>)"
    "ib div 32 = 5" "ib mod 32 = ai"
    "getArgument (memReader h ?data) ai (d\<lparr>src := enat (length pre + 1)\<rparr>) =
       Ok ((enat (argValue ai arg), if ai = 27 then Some (bigEndian arg) else None, argSize ai), ?d2)"
    by auto
  have data2: "?data = (pre @ header 5 ai arg) @ concat (map wire items) @ post" using IMap by simp
  have d2: "src ?d2 = enat (length (pre @ header 5 ai arg))" by (simp add: length_header)
  have lw: "length (wire it) = Suc (length arg + length (concat (map wire items)))"
    using IMap by (simp add: length_header)
  with fuel have k: "length (concat (map wire items)) \<le> fuel" by simp
  have loop: "forLoop fuel (enat (length items)) 0 (\<lambda>i _. skipValue (memReader h ?data) opts fuel) () ?d2 =
           Ok ((), ?d2\<lparr>src := enat (length (pre @ header 5 ai arg) + length (concat (map wire items)))\<rparr>)"
    by (rule skip_container[OF skip_item wfs data2 d2 k])
  from hook IMap
  have hk: "onValueAt opts (enat (argValue ai arg)) ''object'' (keyPath d) = Some (Return r)" by simp
  from hd len loop hk lw r show ?thesis
    by (simp add: decodeValue_Suc andThen_apply getEnv_apply ret_apply Let_def hooked_Return
        length_header add.assoc enat_times_2 del: wire.simps)
next
  case (ISimple ai)
  from wf ISimple have ai: "ai = 20 \<or> ai = 21 \<or> ai = 22 \<or> (ai = 23 \<and> allowUndefined opts)"
    by simp
  then have "ai < 32" by auto
  have data: "pre @ wire it @ post = pre @ header 7 ai [] @ post" using ISimple by simp
  from mem_initial[OF data d _ \<open>ai < 32\<close>, of h] obtain ib where
    "uint (memReader h (pre @ wire it @ post)) 1 d = Ok (ib, d\<lparr>src := enat (length pre + 1)\<rparr>)"
    "ib div 32 = 7" "ib mod 32 = ai"
    by auto
  moreover have "length (wire it) = Suc 0" using ISimple by (simp add: length_header)
  ultimately show ?thesis
    using ai hook ISimple r
    by (auto simp add: decodeValue_Suc andThen_apply getEnv_apply Let_def hookedConst_Return
        simp del: wire.simps)
next
  case (IFloat ai payload)
  from wf IFloat have ai: "(ai = 25 \<and> length payload = 2 \<and> minFloatSize opts \<le> 16) \<or>
      (ai = 26 \<and> length payload = 4 \<and> minFloatSize opts \<le> 32) \<or> (ai = 27 \<and> length payload = 8)"
    by auto
  then have "ai < 32" by auto
  let ?data = "pre @ wire it @ post"
  let ?d1 = "d\<lparr>src := enat (length pre + 1)\<rparr>"
  have data: "?data = pre @ header 7 ai payload @ post" using IFloat by simp
  from mem_initial[OF data d _ \<open>ai < 32\<close>, of h] obtain ib where hd:
    "uint (memReader h ?data) 1 d = Ok (ib, ?d1)" "ib div 32 = 7" "ib mod 32 = ai"
    by auto
  have data1: "?data = (pre @ [of_nat (7 * 32 + ai)]) @ payload @ post"
    using IFloat by (simp add: header_def)
  have "src ?d1 = enat (length (pre @ [of_nat (7 * 32 + ai) :: byte]))" by simp
  from mem_float[OF this, of h payload post]
  have fl: "float (memReader h ?data) (length payload) ?d1 =
           Ok (VFloat (8 * length payload) (bigEndian payload),
               d\<lparr>src := enat (length pre + 1 + length payload)\<rparr>)"
    unfolding data1 by simp
  have lw: "length (wire it) = Suc (length payload)" using IFloat by (simp add: length_header)
  from ai hd fl lw hook IFloat r show ?thesis
    by (auto simp add: decodeValue_Suc andThen_apply getEnv_apply Let_def hookedConst_Return
        simp del: wire.simps)
qed

theorem replacement_skips_item_witness:
  "wellFormed (defaultOptions\<lparr>onValue := Some replaceArrays\<rparr>) (IArray 2 [] [IUnsigned 1 [], IText 1 [] [0x61]])
   \<and> hookCall (defaultOptions\<lparr>onValue := Some replaceArrays\<rparr>) (newDecoder\<lparr>src := enat 1\<rparr>)
         (IArray 2 [] [IUnsigned 1 [], IText 1 [] [0x61]]) = Some (Return VNull)
   \<and> VNull \<noteq> VUndefined
   \<and> src (newDecoder\<lparr>src := enat 1\<rparr>) = enat (length [0x00::byte])
   \<and> length (wire (IArray 2 [] [IUnsigned 1 [], IText 1 [] [0x61]])) \<le> 4
   \<and> wire (IArray 2 [] [IUnsigned 1 [], IText 1 [] [0x61]]) = [0x82, 0x01, 0x61, 0x61]
   \<and> decodeValue (memReader asciiHost ([0x00] @ wire (IArray 2 [] [IUnsigned 1 [], IText 1 [] [0x61]]) @ [0x05]))
         (defaultOptions\<lparr>onValue := Some replaceArrays\<rparr>) (Suc 4) (newDecoder\<lparr>src := enat 1\<rparr>) =
       Ok (VNull, newDecoder\<lparr>src := enat 1\<rparr>\<lparr>src := enat (length [0x00::byte] +
             length (wire (IArray 2 [] [IUnsigned 1 [], IText 1 [] [0x61]])))\<rparr>)"
proof -
  let ?opts = "defaultOptions\<lparr>onValue := Some replaceArrays\<rparr>"
  let ?it = "IArray 2 [] [IUnsigned 1 [], IText 1 [] [0x61]]"
  let ?d = "newDecoder\<lparr>src := enat 1\<rparr>"
  have wf: "wellFormed ?opts ?it"
    by (simp add: argOk_def argValue_def maxSafeInteger_def)
  have hook: "hookCall ?opts ?d ?it = Some (Return VNull)"
    by (simp add: onValueAt_def replaceArrays_def argValue_def)
  have r: "VNull \<noteq> VUndefined" by simp
  have d: "src ?d = enat (length [0x00::byte])" by simp
  have fuel: "length (wire ?it) \<le> 4" by (simp add: header_def)
  have w: "wire ?it = [0x82, 0x01, 0x61, 0x61]" by (simp add: header_def)
  from replacement_skips_item[OF wf hook r d fuel, of asciiHost "[0x05]"] wf hook r d fuel w
  show ?thesis by blast
qed

section \<open>Integers outside the safe range\<close>

lemma decodeValue_unsigned64:
  assumes b: "uint rd 1 d = Ok (27, d1)" and a: "uint rd 8 d1 = Ok (u, d2)"
  shows "decodeValue rd opts (Suc fuel) d =
           (if maxSafeInteger < u then Err (UnsafeIntegerError (int u))
            else hookedConst (onValueAt opts 8 ''number'' (keyPath d1)) (VNumber (int u)) d2)"
  using assms
  by (simp add: decodeValue_Suc andThen_apply getEnv_apply getArgument_apply ret_apply throw_apply
      Let_def numeral_eq_enat)

lemma decodeValue_negative64:
  assumes b: "uint rd 1 d = Ok (59, d1)" and a: "uint rd 8 d1 = Ok (u, d2)"
  shows "decodeValue rd opts (Suc fuel) d =
           (if - 1 - int u < minSafeInteger then Err (UnsafeIntegerError (- 1 - int u))
            else hookedConst (onValueAt opts 8 ''number'' (keyPath d1)) (VNumber (- 1 - int u)) d2)"
proof -
  have "maxSafeInteger < u \<Longrightarrow> - 1 - int u < minSafeInteger"
    by (simp add: maxSafeInteger_def minSafeInteger_def)
  with assms show ?thesis
    by (simp add: decodeValue_Suc andThen_apply getEnv_apply getArgument_apply ret_apply throw_apply
        Let_def numeral_eq_enat)
qed

lemma mem_uint_at0:
  "uint (memReader h (b # bs @ rest)) 1 newDecoder = Ok (unat b, newDecoder\<lparr>src := enat 1\<rparr>)"
proof -
  have "src newDecoder = enat (length ([] :: byte list))" by (simp add: newDecoder_def zero_enat_def)
  from mem_uint[OF this, of h "[b]" "bs @ rest"] show ?thesis by (simp add: bigEndian_def)
qed

lemma mem_uint_at1:
  "uint (memReader h (b # bs @ rest)) (length bs) (newDecoder\<lparr>src := enat 1\<rparr>) =
     Ok (bigEndian bs, newDecoder\<lparr>src := enat (1 + length bs)\<rparr>)"
proof -
  have "src (newDecoder\<lparr>src := enat 1\<rparr>) = enat (length [b])" by simp
  from mem_uint[OF this, of h bs rest] show ?thesis by simp
qed

text \<open>
  C5. An item of major type 0 with an 8-byte argument \<open>u\<close> above \<open>2^53 - 1\<close> makes
  \<open>decode\<close> throw \<open>UnsafeIntegerError\<close> with \<open>u\<close>; one of major type 1 with
  \<open>-1 - u\<close> below \<open>-(2^53 - 1)\<close> makes it throw with \<open>-1 - u\<close>, whatever the options
  and hooks; within the range, \<open>decode\<close> returns the integer itself (when no \<open>onValue\<close>
  hook replaces it). The lemmas before the theorem say the same of \<open>decodeValue\<close> for any
  reader, the streaming ones included.
\<close>

theorem unsafe_integer:
  assumes len: "length bs = 8"
  shows "(maxSafeInteger < bigEndian bs \<longrightarrow>
            decode h opts (0x1B # bs @ rest) = Err (UnsafeIntegerError (int (bigEndian bs))))
       \<and> (- 1 - int (bigEndian bs) < minSafeInteger \<longrightarrow>
            decode h opts (0x3B # bs @ rest) = Err (UnsafeIntegerError (- 1 - int (bigEndian bs))))
       \<and> (bigEndian bs \<le> maxSafeInteger \<longrightarrow> onValue opts = None \<longrightarrow>
            decode h opts (0x1B # bs @ rest) = Ok (VNumber (int (bigEndian bs))))
       \<and> (minSafeInteger \<le> - 1 - int (bigEndian bs) \<longrightarrow> onValue opts = None \<longrightarrow>
            decode h opts (0x3B # bs @ rest) = Ok (VNumber (- 1 - int (bigEndian bs))))"
proof -
  have u: "decodeValue (memReader h (0x1B # bs @ rest)) opts (Suc fuel) newDecoder =
           (if maxSafeInteger < bigEndian bs then Err (UnsafeIntegerError (int (bigEndian bs)))
            else hookedConst (onValueAt opts 8 ''number'' (keyPath (newDecoder\<lparr>src := enat 1\<rparr>)))
                   (VNumber (int (bigEndian bs))) (newDecoder\<lparr>src := enat (1 + length bs)\<rparr>))" for fuel
    by (rule decodeValue_unsigned64) (use mem_uint_at0[of h "0x1B" bs rest] mem_uint_at1[of h "0x1B" bs rest] len in simp_all)
  have n: "decodeValue (memReader h (0x3B # bs @ rest)) opts (Suc fuel) newDecoder =
           (if - 1 - int (bigEndian bs) < minSafeInteger then Err (UnsafeIntegerError (- 1 - int (bigEndian bs)))
            else hookedConst (onValueAt opts 8 ''number'' (keyPath (newDecoder\<lparr>src := enat 1\<rparr>)))
                   (VNumber (- 1 - int (bigEndian bs))) (newDecoder\<lparr>src := enat (1 + length bs)\<rparr>))" for fuel
    by (rule decodeValue_negative64) (use mem_uint_at0[of h "0x3B" bs rest] mem_uint_at1[of h "0x3B" bs rest] len in simp_all)
  show ?thesis
    by (simp add: decode_def valueOf_def u n onValueAt_def hookedConst_apply)
qed

theorem unsafe_integer_witness:
  "length [0x00, 0x20, 0x00, 0x00, 0x00, 0x00, 0x00, 0x01 :: byte] = 8
   \<and> maxSafeInteger < bigEndian [0x00, 0x20, 0x00, 0x00, 0x00, 0x00, 0x00, 0x01]
   \<and> decode asciiHost defaultOptions (0x1B # [0x00, 0x20, 0x00, 0x00, 0x00, 0x00, 0x00, 0x01] @ []) =
       Err (UnsafeIntegerError (2 ^ 53 + 1))
   \<and> - 1 - int (bigEndian [0x00, 0x20, 0x00, 0x00, 0x00, 0x00, 0x00, 0x01]) < minSafeInteger
   \<and> decode asciiHost defaultOptions (0x3B # [0x00, 0x20, 0x00, 0x00, 0x00, 0x00, 0x00, 0x01] @ []) =
       Err (UnsafeIntegerError (- (2 ^ 53) - 2))
   \<and> bigEndian [0x00, 0x1F, 0xFF, 0xFF, 0xFF, 0xFF, 0xFF, 0xFF] \<le> maxSafeInteger
   \<and> onValue defaultOptions = None
   \<and> decode asciiHost defaultOptions (0x1B # [0x00, 0x1F, 0xFF, 0xFF, 0xFF, 0xFF, 0xFF, 0xFF] @ []) =
       Ok (VNumber (2 ^ 53 - 1))
   \<and> minSafeInteger \<le> - 1 - int (bigEndian [0x00, 0x1F, 0xFF, 0xFF, 0xFF, 0xFF, 0xFF, 0xFE])
   \<and> decode asciiHost defaultOptions (0x3B # [0x00, 0x1F, 0xFF, 0xFF, 0xFF, 0xFF, 0xFF, 0xFE] @ []) =
       Ok (VNumber (- (2 ^ 53 - 1)))"
proof -
  let ?big = "[0x00, 0x20, 0x00, 0x00, 0x00, 0x00, 0x00, 0x01 :: byte]"
  let ?max = "[0x00, 0x1F, 0xFF, 0xFF, 0xFF, 0xFF, 0xFF, 0xFF :: byte]"
  let ?min = "[0x00, 0x1F, 0xFF, 0xFF, 0xFF, 0xFF, 0xFF, 0xFE :: byte]"
  have l: "length ?big = 8" "length ?max = 8" "length ?min = 8" by simp_all
  have v: "bigEndian ?big = 2 ^ 53 + 1" "bigEndian ?max = 2 ^ 53 - 1" "bigEndian ?min = 2 ^ 53 - 2"
    by (simp_all add: bigEndian_def)
  have o: "onValue defaultOptions = None" by (simp add: defaultOptions_def)
  from unsafe_integer[OF l(1), of asciiHost defaultOptions "[]"]
    unsafe_integer[OF l(2), of asciiHost defaultOptions "[]"]
    unsafe_integer[OF l(3), of asciiHost defaultOptions "[]"] l o
  show ?thesis
    unfolding v by (simp add: maxSafeInteger_def minSafeInteger_def)
qed

section \<open>The thunk of a hook\<close>

lemma runHook_memo_done:
  "v \<noteq> VUndefined \<Longrightarrow>
   runHook p (memo dec) v s = (case answer p v of Some r \<Rightarrow> Ok ((r, v), s) | None \<Rightarrow> Err HookError)"
  by (induction p) (simp_all add: ret_apply throw_apply andThen_apply memo_apply)

lemma runHook_const:
  "andThen (runHook p (\<lambda>_. ret v) c) (\<lambda>(val, _). f val) s =
     (case answer p v of Some r \<Rightarrow> f r s | None \<Rightarrow> Err HookError)"
proof (induction p arbitrary: c)
  case (Return r)
  show ?case by (simp add: ret_apply andThen_apply)
next
  case Throw
  show ?case by (simp add: throw_apply andThen_apply)
next
  case (Call k)
  have "andThen (runHook (Call k) (\<lambda>_. ret v) c) (\<lambda>(val, _). f val) s =
        andThen (runHook (k v) (\<lambda>_. ret v) v) (\<lambda>(val, _). f val) s"
    by (simp add: andThen_apply ret_apply)
  with Call show ?case by simp
qed

text \<open>
  Calls of the thunk that follow one another, each complete before the next begins (the
  only calls there are in the two synchronous decoders): the decoding \<open>dec\<close> of the item
  runs once, from the state in which the hook was called; every later call returns the
  value \<open>v\<close> of the first and changes nothing (the rest of the hook, \<open>k v\<close>, gets \<open>v\<close> at
  each call); and the state when the hook has returned is the state \<open>s'\<close> after that one
  decoding, which is where \<open>hooked None dec skip\<close>, the decoding without a hook, ends.
  \<open>hooked\<close> is what \<open>decodeValue\<close> does for byte strings, text strings, arrays and maps,
  whose decoding never returns \<open>undefined\<close>. For the other items (\<open>hookedConst\<close>) the
  thunk returns a value that was read before the hook was called, and no call of it
  changes the state.
\<close>

theorem thunk_memoized:
  assumes defined: "\<And>s v s'. dec s = Ok (v, s') \<Longrightarrow> v \<noteq> VUndefined"
  shows "hooked (Some (Call k)) dec skip s =
           (case dec s of
              Ok (v, s') \<Rightarrow>
                (case answer (k v) v of
                   Some r \<Rightarrow> Ok (if r \<noteq> VUndefined then r else v, s')
                 | None \<Rightarrow> Err HookError)
            | Err e \<Rightarrow> Err e
            | OutOfFuel \<Rightarrow> OutOfFuel)
         \<and> hookedConst (Some p) c t =
           (case answer p c of
              Some r \<Rightarrow> Ok (if r = VUndefined then c else r, t)
            | None \<Rightarrow> Err HookError)"
proof
  show "hooked (Some (Call k)) dec skip s =
           (case dec s of
              Ok (v, s') \<Rightarrow>
                (case answer (k v) v of
                   Some r \<Rightarrow> Ok (if r \<noteq> VUndefined then r else v, s')
                 | None \<Rightarrow> Err HookError)
            | Err e \<Rightarrow> Err e
            | OutOfFuel \<Rightarrow> OutOfFuel)"
  proof (cases "dec s")
    case (Ok a)
    obtain v s' where a: "a = (v, s')" by (cases a)
    with Ok defined have v: "v \<noteq> VUndefined" by blast
    from Ok a v show ?thesis
      by (simp add: hooked_apply andThen_apply memo_apply runHook_memo_done ret_apply
          split: option.splits)
  next
    case (Err e)
    then show ?thesis by (simp add: hooked_apply andThen_apply memo_apply)
  next
    case OutOfFuel
    then show ?thesis by (simp add: hooked_apply andThen_apply memo_apply)
  qed
  show "hookedConst (Some p) c t =
           (case answer p c of
              Some r \<Rightarrow> Ok (if r = VUndefined then c else r, t)
            | None \<Rightarrow> Err HookError)"
    unfolding hookedConst_def by (simp add: runHook_const ret_apply split: option.splits)
qed

theorem thunk_memoized_witness:
  "decodeValue (memReader asciiHost [0x82, 0x01, 0x02, 0x03]) (defaultOptions\<lparr>onValue := Some twice\<rparr>)
     (Suc (length [0x82, 0x01, 0x02, 0x03::byte])) newDecoder =
     Ok (VArray [VArray [VNumber 1, VNumber 2], VArray [VNumber 1, VNumber 2]],
         \<lparr>src = enat 3, isKey = False, keyPath = []\<rparr>)
   \<and> hooked (Some (Call (\<lambda>v. Call (\<lambda>w. Return (VArray [v, w])))))
       (andThen (onSrc (decodeBytes (memReader asciiHost [0x01, 0x02]) (enat 2))) (\<lambda>bs. ret (VBytes bs)))
       (onSrc (skipBytes (memReader asciiHost [0x01, 0x02]) (enat 2))) newDecoder =
     Ok (VArray [VBytes [0x01, 0x02], VBytes [0x01, 0x02]], \<lparr>src = enat 2, isKey = False, keyPath = []\<rparr>)"
proof -
  let ?dec = "andThen (onSrc (decodeBytes (memReader asciiHost [0x01, 0x02]) (enat 2))) (\<lambda>bs. ret (VBytes bs))"
  have defined: "\<And>s v s'. ?dec s = Ok (v, s') \<Longrightarrow> v \<noteq> VUndefined"
    by (auto simp: andThen_def ret_def split: res.splits)
  have run: "?dec newDecoder = Ok (VBytes [0x01, 0x02], \<lparr>src = enat 2, isKey = False, keyPath = []\<rparr>)"
    by (simp add: run_simps mem_simps)
  have ex: "decodeValue (memReader asciiHost [0x82, 0x01, 0x02, 0x03]) (defaultOptions\<lparr>onValue := Some twice\<rparr>)
     (Suc (length [0x82, 0x01, 0x02, 0x03::byte])) newDecoder =
     Ok (VArray [VArray [VNumber 1, VNumber 2], VArray [VNumber 1, VNumber 2]],
         \<lparr>src = enat 3, isKey = False, keyPath = []\<rparr>)"
    by (simp add: run_simps mem_simps twice_def)
  from thunk_memoized[of ?dec "\<lambda>v. Call (\<lambda>w. Return (VArray [v, w]))"
      "onSrc (skipBytes (memReader asciiHost [0x01, 0x02]) (enat 2))" newDecoder "Return VNull" VNull newDecoder,
      OF defined]
  have "hooked (Some (Call (\<lambda>v. Call (\<lambda>w. Return (VArray [v, w]))))) ?dec
       (onSrc (skipBytes (memReader asciiHost [0x01, 0x02]) (enat 2))) newDecoder =
     Ok (VArray [VBytes [0x01, 0x02], VBytes [0x01, 0x02]], \<lparr>src = enat 2, isKey = False, keyPath = []\<rparr>)"
    by (simp add: run)
  with ex show ?thesis by blast
qed

lemmas async_simps = thenA_def fillA_def decodeBytesA_def thunkA_def twoCalls_def oneCall_def
  advance_def advanceLoop.simps eval_nat_numeral one_enat_def

text \<open>
  C8. The claim is that a hook that calls its thunk more than once reads the payload of the
  item once, gets the same value at every call, and leaves the cursor where one decoding
  of the item ends. The thunk of a byte string or text string of decodeAsyncIterable.ts
  assigns \<open>value\<close> after its \<open>await\<close>, so a call made while another is pending finds
  \<open>value === undefined\<close> as well and reads again. On the chunk \<open>41 01 02\<close> (the byte
  string \<open>h'01'\<close>, then the integer \<open>2\<close>), when \<open>decodeValue\<close> has read the byte \<open>41\<close>
  and calls the hook: one call of the thunk, or two calls of which the first is awaited
  before the second, return \<open>[1]\<close> and leave the cursor before \<open>02\<close>; two calls that
  overlap return \<open>[1]\<close> and \<open>[2]\<close>, the second having read the byte of the next item, and
  leave \<open>[2]\<close> in \<open>value\<close>, which the \<open>return callback()\<close> of \<open>decodeValue\<close> then
  returns, and the buffer empty.
\<close>

theorem overlapping_thunk_calls:
  "andThen awaitChunk (\<lambda>_. allocateFill 1)
       \<lparr>offset = 0, byteLength = 0, chunks = [], iter = [[0x41, 0x01, 0x02]], freed = []\<rparr> =
     Ok ([0x41], \<lparr>offset = 1, byteLength = 2, chunks = [[0x41, 0x01, 0x02]], iter = [], freed = []\<rparr>)
   \<and> oneCall 8 (thunkA 8 VBytes 1)
       (\<lparr>offset = 1, byteLength = 2, chunks = [[0x41, 0x01, 0x02]], iter = [], freed = []\<rparr>, VUndefined) =
     ([Resolved (VBytes [0x01])],
      (\<lparr>offset = 2, byteLength = 1, chunks = [[0x41, 0x01, 0x02]], iter = [], freed = []\<rparr>, VBytes [0x01]))
   \<and> oneCall 8 (thenA (thunkA 8 VBytes 1) (\<lambda>_. thunkA 8 VBytes 1))
       (\<lparr>offset = 1, byteLength = 2, chunks = [[0x41, 0x01, 0x02]], iter = [], freed = []\<rparr>, VUndefined) =
     ([Resolved (VBytes [0x01])],
      (\<lparr>offset = 2, byteLength = 1, chunks = [[0x41, 0x01, 0x02]], iter = [], freed = []\<rparr>, VBytes [0x01]))
   \<and> twoCalls 8 (thunkA 8 VBytes 1)
       (\<lparr>offset = 1, byteLength = 2, chunks = [[0x41, 0x01, 0x02]], iter = [], freed = []\<rparr>, VUndefined) =
     ([Resolved (VBytes [0x01]), Resolved (VBytes [0x02])],
      (\<lparr>offset = 0, byteLength = 0, chunks = [], iter = [], freed = [[0x41, 0x01, 0x02]]\<rparr>, VBytes [0x02]))
   \<and> thunkA 8 VBytes 1
       (\<lparr>offset = 0, byteLength = 0, chunks = [], iter = [], freed = [[0x41, 0x01, 0x02]]\<rparr>, VBytes [0x02]) =
     (Resolved (VBytes [0x02]),
      (\<lparr>offset = 0, byteLength = 0, chunks = [], iter = [], freed = [[0x41, 0x01, 0x02]]\<rparr>, VBytes [0x02]))"
proof (intro conjI)
  show "andThen awaitChunk (\<lambda>_. allocateFill 1)
       \<lparr>offset = 0, byteLength = 0, chunks = [], iter = [[0x41, 0x01, 0x02]], freed = []\<rparr> =
     Ok ([0x41], \<lparr>offset = 1, byteLength = 2, chunks = [[0x41, 0x01, 0x02]], iter = [], freed = []\<rparr>)"
    by (simp add: andThen_def awaitChunk.simps allocateFill_def allocate.simps advance_def
        advanceLoop.simps one_enat_def)
  show "oneCall 8 (thunkA 8 VBytes 1)
       (\<lparr>offset = 1, byteLength = 2, chunks = [[0x41, 0x01, 0x02]], iter = [], freed = []\<rparr>, VUndefined) =
     ([Resolved (VBytes [0x01])],
      (\<lparr>offset = 2, byteLength = 1, chunks = [[0x41, 0x01, 0x02]], iter = [], freed = []\<rparr>, VBytes [0x01]))"
    by (simp add: async_simps)
  show "oneCall 8 (thenA (thunkA 8 VBytes 1) (\<lambda>_. thunkA 8 VBytes 1))
       (\<lparr>offset = 1, byteLength = 2, chunks = [[0x41, 0x01, 0x02]], iter = [], freed = []\<rparr>, VUndefined) =
     ([Resolved (VBytes [0x01])],
      (\<lparr>offset = 2, byteLength = 1, chunks = [[0x41, 0x01, 0x02]], iter = [], freed = []\<rparr>, VBytes [0x01]))"
    by (simp add: async_simps)
  show "twoCalls 8 (thunkA 8 VBytes 1)
       (\<lparr>offset = 1, byteLength = 2, chunks = [[0x41, 0x01, 0x02]], iter = [], freed = []\<rparr>, VUndefined) =
     ([Resolved (VBytes [0x01]), Resolved (VBytes [0x02])],
      (\<lparr>offset = 0, byteLength = 0, chunks = [], iter = [], freed = [[0x41, 0x01, 0x02]]\<rparr>, VBytes [0x02]))"
    by (simp add: async_simps)
  show "thunkA 8 VBytes 1
       (\<lparr>offset = 0, byteLength = 0, chunks = [], iter = [], freed = [[0x41, 0x01, 0x02]]\<rparr>, VBytes [0x02]) =
     (Resolved (VBytes [0x02]),
      (\<lparr>offset = 0, byteLength = 0, chunks = [], iter = [], freed = [[0x41, 0x01, 0x02]]\<rparr>, VBytes [0x02]))"
    by (simp add: thunkA_def)
qed

section \<open>The decoder on the bytes of an item tree\<close>

lemma outcome_simps [simp]: "outcome (Inl e) s = Err e" "outcome (Inr v) s = Ok (v, s)"
  by (simp_all add: outcome_def)

lemma hookedConst_withHook: "hookedConst hk c d = outcome (withHook hk (Inr c)) d"
proof (cases hk)
  case None
  then show ?thesis by (simp add: hookedConst_apply withHook_def)
next
  case (Some p)
  have "hookedConst (Some p) c d =
          (case answer p c of Some r \<Rightarrow> ret (if r = VUndefined then c else r) d | None \<Rightarrow> Err HookError)"
    unfolding hookedConst_def by (simp add: runHook_const)
  then show ?thesis using Some
    by (auto simp: withHook_def ret_apply split: option.splits)
qed

lemma hooked_withHook:
  assumes dec: "dec d = outcome R d'" and skip: "skip d = Ok ((), d')"
    and defined: "\<And>v. R = Inr v \<Longrightarrow> v \<noteq> VUndefined"
  shows "hooked hk dec skip d = outcome (withHook hk R) d'"
proof (cases hk)
  case None
  then show ?thesis using dec by (simp add: hooked_apply memo_apply withHook_def)
next
  case (Some p)
  show ?thesis
  proof (cases p)
    case (Return val)
    with Some dec skip show ?thesis
      by (cases R) (simp_all add: hooked_apply andThen_apply ret_apply memo_apply withHook_def)
  next
    case Throw
    with Some show ?thesis
      by (cases R) (simp_all add: hooked_apply andThen_apply throw_apply withHook_def)
  next
    case (Call k)
    show ?thesis
    proof (cases R)
      case (Inl e)
      with Some Call dec show ?thesis
        by (simp add: hooked_apply andThen_apply memo_apply withHook_def)
    next
      case (Inr v)
      with defined have v: "v \<noteq> VUndefined" by simp
      from Inr dec have run: "dec d = Ok (v, d')" by simp
      show ?thesis
        using Some Call Inr run v runHook_memo_done[OF v, of "k v" dec d']
        by (auto simp: hooked_apply andThen_apply memo_apply ret_apply withHook_def
            split: option.splits)
    qed
  qed
qed

lemma mem_decodeBytes:
  assumes "src d = enat (length pre)"
  shows "onSrc (decodeBytes (memReader h (pre @ bs @ post)) (enat (length bs))) d =
           Ok (bs, d\<lparr>src := enat (length pre + length bs)\<rparr>)"
  using assms by (simp add: onSrc_def memReader_def memDecodeBytes_def subarray_def)

lemma mem_decodeString:
  assumes "src d = enat (length pre)"
  shows "onSrc (decodeString (memReader h (pre @ bs @ post)) (enat (length bs))) d =
           Ok (textDecode h bs, d\<lparr>src := enat (length pre + length bs)\<rparr>)"
  using assms by (simp add: onSrc_def memReader_def memDecodeString_def subarray_def)


lemma enat_less_pow32: "(enat n < 2 ^ 32) = (n < 2 ^ 32)"
proof -
  have "(2::enat) ^ 32 = of_nat (2 ^ 32)" by (simp only: of_nat_power of_nat_numeral)
  then show ?thesis by (simp only: of_nat_eq_enat enat_ord_simps)
qed

lemma duplicate_mem: "duplicate (memReader h data) = keyIn h"
  by (simp add: memReader_def)

lemma pop_push: "d\<lparr>keyPath := keyPath d @ [k]\<rparr>\<lparr>src := s\<rparr>\<lparr>keyPath := butlast (keyPath d @ [k])\<rparr> = d\<lparr>src := s\<rparr>"
  by (cases d) simp

lemma elements_loop:
  assumes each: "\<And>it pre post d. it \<in> set items \<Longrightarrow> src d = enat (length pre) \<Longrightarrow> \<not> isKey d \<Longrightarrow>
            decodeValue (memReader h (pre @ wire it @ post)) opts n d =
              outcome (decodeItem h opts False (keyPath d) it)
                (d\<lparr>src := enat (length pre + length (wire it))\<rparr>)"
  shows "data = pre @ concat (map wire items) @ post \<Longrightarrow> src d = enat (length pre) \<Longrightarrow> \<not> isKey d \<Longrightarrow>
         length items \<le> m \<Longrightarrow>
         forLoop m (enat (i + length items)) i
           (\<lambda>i value.
              andThen (pushKey (Index i)) (\<lambda>_.
              andThen (decodeValue (memReader h data) opts n) (\<lambda>v.
              andThen popKey (\<lambda>_.
              ret (value @ [v])))))
           acc d =
           outcome (decodeElements h opts False (keyPath d) i items acc)
             (d\<lparr>src := enat (length pre + length (concat (map wire items)))\<rparr>)"
  using each
proof (induction items arbitrary: pre d m i acc)
  case Nil
  have "d\<lparr>src := enat (length pre)\<rparr> = d" using Nil.prems(2) by (cases d) simp
  then show ?case by (cases m) (simp_all add: forLoop_0 forLoop_Suc ret_apply)
next
  case (Cons x xs)
  from Cons.prems(4) obtain m' where m: "m = Suc m'" and le: "length xs \<le> m'" by (cases m) auto
  let ?d0 = "d\<lparr>keyPath := keyPath d @ [Index i]\<rparr>"
  let ?d1 = "d\<lparr>src := enat (length pre + length (wire x))\<rparr>"
  have data1: "data = pre @ wire x @ (concat (map wire xs) @ post)"
    using Cons.prems(1) by simp
  have first: "decodeValue (memReader h data) opts n ?d0 =
      outcome (decodeItem h opts False (keyPath ?d0) x) (?d0\<lparr>src := enat (length pre + length (wire x))\<rparr>)"
    unfolding data1 by (rule Cons.prems(5)) (simp_all add: Cons.prems(2,3))
  show ?case
  proof (cases "decodeItem h opts False (keyPath d @ [Index i]) x")
    case (Inl e)
    with first m show ?thesis
      by (simp add: forLoop_Suc andThen_apply pushKey_apply)
  next
    case (Inr v)
    have data2: "data = (pre @ wire x) @ concat (map wire xs) @ post"
      using Cons.prems(1) by simp
    have rest: "forLoop m' (enat (Suc i + length xs)) (Suc i)
           (\<lambda>i value.
              andThen (pushKey (Index i)) (\<lambda>_.
              andThen (decodeValue (memReader h data) opts n) (\<lambda>v.
              andThen popKey (\<lambda>_.
              ret (value @ [v])))))
           (acc @ [v]) ?d1 =
           outcome (decodeElements h opts False (keyPath ?d1) (Suc i) xs (acc @ [v]))
             (?d1\<lparr>src := enat (length (pre @ wire x) + length (concat (map wire xs)))\<rparr>)"
      by (rule Cons.IH[OF data2 _ _ le]) (simp_all add: Cons.prems(3,5))
    have step: "forLoop m (enat (i + length (x # xs))) i
           (\<lambda>i value.
              andThen (pushKey (Index i)) (\<lambda>_.
              andThen (decodeValue (memReader h data) opts n) (\<lambda>v.
              andThen popKey (\<lambda>_.
              ret (value @ [v])))))
           acc d =
         forLoop m' (enat (Suc i + length xs)) (Suc i)
           (\<lambda>i value.
              andThen (pushKey (Index i)) (\<lambda>_.
              andThen (decodeValue (memReader h data) opts n) (\<lambda>v.
              andThen popKey (\<lambda>_.
              ret (value @ [v])))))
           (acc @ [v]) ?d1"
      using first Inr m
      by (simp add: forLoop_Suc andThen_apply pushKey_apply popKey_apply ret_apply pop_push)
    have fin: "outcome (decodeElements h opts False (keyPath ?d1) (Suc i) xs (acc @ [v]))
             (?d1\<lparr>src := enat (length (pre @ wire x) + length (concat (map wire xs)))\<rparr>) =
           outcome (decodeElements h opts False (keyPath d) i (x # xs) acc)
             (d\<lparr>src := enat (length pre + length (concat (map wire (x # xs))))\<rparr>)"
      using Inr by (simp add: add.assoc)
    from step rest fin show ?thesis by (simp only:)
  qed
qed


lemma key_state: "\<not> isKey d \<Longrightarrow> d\<lparr>isKey := True\<rparr>\<lparr>src := s\<rparr>\<lparr>isKey := False\<rparr> = d\<lparr>src := s\<rparr>"
  by (cases d) simp

lemma pop_push2:
  "d\<lparr>src := s\<rparr>\<lparr>keyPath := keyPath d @ [k]\<rparr>\<lparr>src := t\<rparr>\<lparr>keyPath := butlast (keyPath d @ [k])\<rparr> = d\<lparr>src := t\<rparr>"
  by (cases d) simp

lemma entries_loop:
  assumes each: "\<And>it pre post d. it \<in> set items \<Longrightarrow> src d = enat (length pre) \<Longrightarrow>
            (isKey d \<longrightarrow> isText it) \<Longrightarrow>
            decodeValue (memReader h (pre @ wire it @ post)) opts n d =
              outcome (decodeItem h opts (isKey d) (keyPath d) it)
                (d\<lparr>src := enat (length pre + length (wire it))\<rparr>)"
  shows "data = pre @ concat (map wire items) @ post \<Longrightarrow> src d = enat (length pre) \<Longrightarrow> \<not> isKey d \<Longrightarrow>
         keysText items \<Longrightarrow> length items = 2 * c \<Longrightarrow> c \<le> m \<Longrightarrow>
         forLoop m (enat (i + c)) i
           (\<lambda>i value.
              andThen (setIsKey True) (\<lambda>_.
              andThen (decodeValue (memReader h data) opts n) (\<lambda>key.
              andThen (setIsKey False) (\<lambda>_.
              case key of
                VString k \<Rightarrow>
                  if duplicate (memReader h data) k value then throw DuplicateObjectKey
                  else
                    andThen (pushKey (Name k)) (\<lambda>_.
                    andThen (decodeValue (memReader h data) opts n) (\<lambda>v.
                    andThen popKey (\<lambda>_.
                    ret (assign value k v))))
              | _ \<Rightarrow> throw NonStringKey))))
           acc d =
           outcome (decodeEntries h opts (keyPath d) items acc)
             (d\<lparr>src := enat (length pre + length (concat (map wire items)))\<rparr>)"
  using each
proof (induction c arbitrary: items pre d m i acc)
  case 0
  then have items: "items = []" by simp
  have "d\<lparr>src := enat (length pre)\<rparr> = d" using "0.prems"(2) by (cases d) simp
  then show ?case unfolding items by (cases m) (simp_all add: forLoop_0 forLoop_Suc ret_apply)
next
  case (Suc c)
  from Suc.prems(5) obtain key x xs where items: "items = key # x # xs" and lxs: "length xs = 2 * c"
    by (cases items; cases "tl items") auto
  from Suc.prems(6) obtain m' where m: "m = Suc m'" and le: "c \<le> m'" by (cases m) auto
  from Suc.prems(4) items have keyT: "isText key" and keys: "keysText xs" by auto
  let ?dk = "d\<lparr>isKey := True\<rparr>"
  let ?d1 = "d\<lparr>src := enat (length pre + length (wire key))\<rparr>"
  let ?d2 = "d\<lparr>src := enat (length pre + length (wire key) + length (wire x))\<rparr>"
  have data1: "data = pre @ wire key @ (wire x @ concat (map wire xs) @ post)"
    using Suc.prems(1) items by simp
  have first: "decodeValue (memReader h data) opts n ?dk =
      outcome (decodeItem h opts (isKey ?dk) (keyPath ?dk) key)
        (?dk\<lparr>src := enat (length pre + length (wire key))\<rparr>)"
    unfolding data1 by (rule Suc.prems(7)) (simp_all add: Suc.prems(2) items keyT)
  show ?case
  proof (cases "decodeItem h opts True (keyPath d) key")
    case (Inl e)
    with first m show ?thesis
      by (simp add: forLoop_Suc andThen_apply setIsKey_apply items)
  next
    case (Inr kv)
    show ?thesis
    proof (cases "\<exists>name. kv = VString name")
      case False
      with first Inr m Suc.prems(3) show ?thesis
        by (cases kv) (simp_all add: forLoop_Suc andThen_apply setIsKey_apply throw_apply items)
    next
      case True
      then obtain name where kv: "kv = VString name" by blast
      show ?thesis
      proof (cases "keyIn h name acc")
        case True
        with first Inr kv m Suc.prems(3) show ?thesis
          by (simp add: forLoop_Suc andThen_apply setIsKey_apply throw_apply items duplicate_mem)
      next
        case False
        let ?dv = "?d1\<lparr>keyPath := keyPath d @ [Name name]\<rparr>"
        have data2: "data = (pre @ wire key) @ wire x @ (concat (map wire xs) @ post)"
          using Suc.prems(1) items by simp
        have second: "decodeValue (memReader h data) opts n ?dv =
            outcome (decodeItem h opts (isKey ?dv) (keyPath ?dv) x)
              (?dv\<lparr>src := enat (length (pre @ wire key) + length (wire x))\<rparr>)"
          unfolding data2 by (rule Suc.prems(7)) (simp_all add: Suc.prems(3) items)
        show ?thesis
        proof (cases "decodeItem h opts False (keyPath d @ [Name name]) x")
          case (Inl e)
          with first second Inr kv m Suc.prems(3) False show ?thesis
            by (simp add: forLoop_Suc andThen_apply setIsKey_apply pushKey_apply throw_apply
                items duplicate_mem key_state)
        next
          case v: (Inr v)
          have data3: "data = (pre @ wire key @ wire x) @ concat (map wire xs) @ post"
            using Suc.prems(1) items by simp
          have rest: "forLoop m' (enat (Suc i + c)) (Suc i)
               (\<lambda>i value.
              andThen (setIsKey True) (\<lambda>_.
              andThen (decodeValue (memReader h data) opts n) (\<lambda>key.
              andThen (setIsKey False) (\<lambda>_.
              case key of
                VString k \<Rightarrow>
                  if duplicate (memReader h data) k value then throw DuplicateObjectKey
                  else
                    andThen (pushKey (Name k)) (\<lambda>_.
                    andThen (decodeValue (memReader h data) opts n) (\<lambda>v.
                    andThen popKey (\<lambda>_.
                    ret (assign value k v))))
              | _ \<Rightarrow> throw NonStringKey))))
               (assign acc name v) ?d2 =
               outcome (decodeEntries h opts (keyPath ?d2) xs (assign acc name v))
                 (?d2\<lparr>src := enat (length (pre @ wire key @ wire x) + length (concat (map wire xs)))\<rparr>)"
            by (rule Suc.IH[OF data3 _ _ keys lxs le]) (simp_all add: Suc.prems(3,7) items add.assoc)
          have step: "forLoop m (enat (i + Suc c)) i
               (\<lambda>i value.
              andThen (setIsKey True) (\<lambda>_.
              andThen (decodeValue (memReader h data) opts n) (\<lambda>key.
              andThen (setIsKey False) (\<lambda>_.
              case key of
                VString k \<Rightarrow>
                  if duplicate (memReader h data) k value then throw DuplicateObjectKey
                  else
                    andThen (pushKey (Name k)) (\<lambda>_.
                    andThen (decodeValue (memReader h data) opts n) (\<lambda>v.
                    andThen popKey (\<lambda>_.
                    ret (assign value k v))))
              | _ \<Rightarrow> throw NonStringKey))))
               acc d =
             forLoop m' (enat (Suc i + c)) (Suc i)
               (\<lambda>i value.
              andThen (setIsKey True) (\<lambda>_.
              andThen (decodeValue (memReader h data) opts n) (\<lambda>key.
              andThen (setIsKey False) (\<lambda>_.
              case key of
                VString k \<Rightarrow>
                  if duplicate (memReader h data) k value then throw DuplicateObjectKey
                  else
                    andThen (pushKey (Name k)) (\<lambda>_.
                    andThen (decodeValue (memReader h data) opts n) (\<lambda>v.
                    andThen popKey (\<lambda>_.
                    ret (assign value k v))))
              | _ \<Rightarrow> throw NonStringKey))))
               (assign acc name v) ?d2"
            using first second Inr kv v m Suc.prems(3) False
            by (simp add: forLoop_Suc andThen_apply setIsKey_apply pushKey_apply popKey_apply ret_apply
                duplicate_mem key_state pop_push2 add.assoc)
          have fin: "outcome (decodeEntries h opts (keyPath ?d2) xs (assign acc name v))
                 (?d2\<lparr>src := enat (length (pre @ wire key @ wire x) + length (concat (map wire xs)))\<rparr>) =
               outcome (decodeEntries h opts (keyPath d) items acc)
                 (d\<lparr>src := enat (length pre + length (concat (map wire items)))\<rparr>)"
            using Inr kv v False by (simp add: items add.assoc)
          from step rest fin show ?thesis by (simp only:)
        qed
      qed
    qed
  qed
qed


lemma andThen_outcome:
  assumes "m s = outcome R s'"
  shows "andThen m (\<lambda>x. ret (f x)) s = outcome (map_sum id f R) s'"
  using assms by (cases R) (simp_all add: andThen_def ret_def)

lemma decode_item:
  "wellFormed opts it \<Longrightarrow> textKeys it \<Longrightarrow> src d = enat (length pre) \<Longrightarrow> length (wire it) < n \<Longrightarrow>
   (isKey d \<longrightarrow> isText it) \<Longrightarrow>
   decodeValue (memReader h (pre @ wire it @ post)) opts n d =
     outcome (decodeItem h opts (isKey d) (keyPath d) it)
       (d\<lparr>src := enat (length pre + length (wire it))\<rparr>)"
proof (induction it arbitrary: pre post d n)
  case (IUnsigned ai arg)
  from IUnsigned.prems(4) obtain k where n: "n = Suc k" by (cases n) auto
  from IUnsigned.prems(1) have ok: "argOk ai arg" and safe: "argValue ai arg \<le> maxSafeInteger" by auto
  have data: "pre @ wire (IUnsigned ai arg) @ post = pre @ header 0 ai arg @ post" by simp
  from mem_head[OF data IUnsigned.prems(3) _ ok safe, of h] obtain ib where
    "uint (memReader h (pre @ wire (IUnsigned ai arg) @ post)) 1 d = Ok (ib, d\<lparr>src := enat (length pre + 1)\<rparr>)"
    "ib div 32 = 0" "ib mod 32 = ai"
    "getArgument (memReader h (pre @ wire (IUnsigned ai arg) @ post)) ai (d\<lparr>src := enat (length pre + 1)\<rparr>) =
       Ok ((enat (argValue ai arg), if ai = 27 then Some (bigEndian arg) else None, argSize ai),
           d\<lparr>src := enat (length pre + 1 + length arg)\<rparr>)"
    by auto
  moreover have "ai = 27 \<longrightarrow> \<not> maxSafeInteger < bigEndian arg"
    using safe by (auto simp: argValue_def)
  ultimately show ?case
    unfolding n
    by (simp add: decodeValue_Suc andThen_apply getEnv_apply throw_apply Let_def hookedConst_withHook
        length_wire del: wire.simps)
next
  case (INegative ai arg)
  from INegative.prems(4) obtain k where n: "n = Suc k" by (cases n) auto
  from INegative.prems(1) have ok: "argOk ai arg" and safe: "argValue ai arg < maxSafeInteger" by auto
  then have safe': "argValue ai arg \<le> maxSafeInteger" by simp
  have data: "pre @ wire (INegative ai arg) @ post = pre @ header 1 ai arg @ post" by simp
  from mem_head[OF data INegative.prems(3) _ ok safe', of h] obtain ib where
    "uint (memReader h (pre @ wire (INegative ai arg) @ post)) 1 d = Ok (ib, d\<lparr>src := enat (length pre + 1)\<rparr>)"
    "ib div 32 = 1" "ib mod 32 = ai"
    "getArgument (memReader h (pre @ wire (INegative ai arg) @ post)) ai (d\<lparr>src := enat (length pre + 1)\<rparr>) =
       Ok ((enat (argValue ai arg), if ai = 27 then Some (bigEndian arg) else None, argSize ai),
           d\<lparr>src := enat (length pre + 1 + length arg)\<rparr>)"
    by auto
  moreover have "ai = 27 \<longrightarrow> \<not> - 1 - int (bigEndian arg) < minSafeInteger"
    using safe by (auto simp: argValue_def maxSafeInteger_def minSafeInteger_def)
  ultimately show ?case
    unfolding n
    by (simp add: decodeValue_Suc andThen_apply getEnv_apply throw_apply Let_def hookedConst_withHook
        length_wire del: wire.simps)
next
  case (IBytes ai arg payload)
  from IBytes.prems(4) obtain k where n: "n = Suc k" by (cases n) auto
  from IBytes.prems(1) have ok: "argOk ai arg" and safe: "argValue ai arg \<le> maxSafeInteger"
    and len: "length payload = argValue ai arg" by auto
  let ?data = "pre @ wire (IBytes ai arg payload) @ post"
  let ?d2 = "d\<lparr>src := enat (length pre + 1 + length arg)\<rparr>"
  let ?d3 = "d\<lparr>src := enat (length pre + length (wire (IBytes ai arg payload)))\<rparr>"
  have data: "?data = pre @ header 2 ai arg @ (payload @ post)" by simp
  from mem_head[OF data IBytes.prems(3) _ ok safe, of h] obtain ib where hd:
    "uint (memReader h ?data) 1 d = Ok (ib, d\<lparr>src := enat (length pre + 1)\<rparr>)"
    "ib div 32 = 2" "ib mod 32 = ai"
    "getArgument (memReader h ?data) ai (d\<lparr>src := enat (length pre + 1)\<rparr>) =
       Ok ((enat (argValue ai arg), if ai = 27 then Some (bigEndian arg) else None, argSize ai), ?d2)"
    by auto
  have data2: "?data = (pre @ header 2 ai arg) @ payload @ post" by simp
  have d2: "src ?d2 = enat (length (pre @ header 2 ai arg))" by (simp add: length_header)
  have d3: "?d2\<lparr>src := enat (length (pre @ header 2 ai arg) + length payload)\<rparr> = ?d3"
    by (simp add: length_header)
  have dec: "andThen (onSrc (decodeBytes (memReader h ?data) (enat (argValue ai arg)))) (\<lambda>bs. ret (VBytes bs)) ?d2 =
          outcome (Inr (VBytes payload)) ?d3"
    using mem_decodeBytes[OF d2, of h payload post]
    by (simp add: andThen_apply ret_apply len length_header)
  have skip: "onSrc (skipBytes (memReader h ?data) (enat (argValue ai arg))) ?d2 = Ok ((), ?d3)"
    using mem_skipBytes[OF d2, of h ?data "length payload"] by (simp add: len length_header)
  have "hooked (onValueAt opts (enat (argValue ai arg)) ''Uint8Array'' (keyPath d))
          (andThen (onSrc (decodeBytes (memReader h ?data) (enat (argValue ai arg)))) (\<lambda>bs. ret (VBytes bs)))
          (onSrc (skipBytes (memReader h ?data) (enat (argValue ai arg)))) ?d2 =
        outcome (withHook (onValueAt opts (enat (argValue ai arg)) ''Uint8Array'' (keyPath d))
          (Inr (VBytes payload))) ?d3"
    by (rule hooked_withHook[where dec = "(andThen (onSrc (decodeBytes (memReader h ?data) (enat (argValue ai arg)))) (\<lambda>bs. ret (VBytes bs)))"
          and skip = "(onSrc (skipBytes (memReader h ?data) (enat (argValue ai arg))))"
          and d = "?d2", OF dec skip]) simp
  with hd show ?case
    unfolding n
    by (simp add: decodeValue_Suc andThen_apply getEnv_apply Let_def del: wire.simps)
next
  case (IText ai arg payload)
  from IText.prems(4) obtain k where n: "n = Suc k" by (cases n) auto
  from IText.prems(1) have ok: "argOk ai arg" and safe: "argValue ai arg \<le> maxSafeInteger"
    and len: "length payload = argValue ai arg" by auto
  let ?data = "pre @ wire (IText ai arg payload) @ post"
  let ?d2 = "d\<lparr>src := enat (length pre + 1 + length arg)\<rparr>"
  let ?d3 = "d\<lparr>src := enat (length pre + length (wire (IText ai arg payload)))\<rparr>"
  let ?hk = "if isKey d then onKeyAt opts (enat (argValue ai arg))
             else onValueAt opts (enat (argValue ai arg)) ''string'' (keyPath d)"
  have data: "?data = pre @ header 3 ai arg @ (payload @ post)" by simp
  from mem_head[OF data IText.prems(3) _ ok safe, of h] obtain ib where hd:
    "uint (memReader h ?data) 1 d = Ok (ib, d\<lparr>src := enat (length pre + 1)\<rparr>)"
    "ib div 32 = 3" "ib mod 32 = ai"
    "getArgument (memReader h ?data) ai (d\<lparr>src := enat (length pre + 1)\<rparr>) =
       Ok ((enat (argValue ai arg), if ai = 27 then Some (bigEndian arg) else None, argSize ai), ?d2)"
    by auto
  have data2: "?data = (pre @ header 3 ai arg) @ payload @ post" by simp
  have d2: "src ?d2 = enat (length (pre @ header 3 ai arg))" by (simp add: length_header)
  have d3: "?d2\<lparr>src := enat (length (pre @ header 3 ai arg) + length payload)\<rparr> = ?d3"
    by (simp add: length_header)
  have dec: "andThen (onSrc (decodeString (memReader h ?data) (enat (argValue ai arg)))) (\<lambda>s. ret (VString s)) ?d2 =
          outcome (Inr (VString (textDecode h payload))) ?d3"
    using mem_decodeString[OF d2, of h payload post]
    by (simp add: andThen_apply ret_apply len length_header)
  have skip: "onSrc (skipBytes (memReader h ?data) (enat (argValue ai arg))) ?d2 = Ok ((), ?d3)"
    using mem_skipBytes[OF d2, of h ?data "length payload"] by (simp add: len length_header)
  have "hooked ?hk
          (andThen (onSrc (decodeString (memReader h ?data) (enat (argValue ai arg)))) (\<lambda>s. ret (VString s)))
          (onSrc (skipBytes (memReader h ?data) (enat (argValue ai arg)))) ?d2 =
        outcome (withHook ?hk (Inr (VString (textDecode h payload)))) ?d3"
    by (rule hooked_withHook[where dec = "(andThen (onSrc (decodeString (memReader h ?data) (enat (argValue ai arg)))) (\<lambda>s. ret (VString s)))"
          and skip = "(onSrc (skipBytes (memReader h ?data) (enat (argValue ai arg))))"
          and d = "?d2", OF dec skip]) simp
  with hd show ?case
    unfolding n
    by (simp add: decodeValue_Suc andThen_apply getEnv_apply Let_def del: wire.simps)
next
  case (IArray ai arg items)
  from IArray.prems(4) obtain k where n: "n = Suc k" by (cases n) auto
  from IArray.prems(1) have ok: "argOk ai arg" and safe: "argValue ai arg \<le> maxSafeInteger"
    and len: "length items = argValue ai arg" and wf: "\<forall>it \<in> set items. wellFormed opts it" by auto
  from IArray.prems(2) have tk: "\<forall>it \<in> set items. textKeys it" by simp
  from IArray.prems(5) have nk: "\<not> isKey d" by auto
  let ?data = "pre @ wire (IArray ai arg items) @ post"
  let ?d2 = "d\<lparr>src := enat (length pre + 1 + length arg)\<rparr>"
  let ?d3 = "d\<lparr>src := enat (length pre + length (wire (IArray ai arg items)))\<rparr>"
  let ?R = "if argValue ai arg < 2 ^ 32
            then map_sum id VArray (decodeElements h opts False (keyPath d) 0 items [])
            else Inl RangeError"
  have data: "?data = pre @ header 4 ai arg @ (concat (map wire items) @ post)" by simp
  from mem_head[OF data IArray.prems(3) _ ok safe, of h] obtain ib where hd:
    "uint (memReader h ?data) 1 d = Ok (ib, d\<lparr>src := enat (length pre + 1)\<rparr>)"
    "ib div 32 = 4" "ib mod 32 = ai"
    "getArgument (memReader h ?data) ai (d\<lparr>src := enat (length pre + 1)\<rparr>) =
       Ok ((enat (argValue ai arg), if ai = 27 then Some (bigEndian arg) else None, argSize ai), ?d2)"
    by auto
  have data2: "?data = (pre @ header 4 ai arg) @ concat (map wire items) @ post" by simp
  have d2: "src ?d2 = enat (length (pre @ header 4 ai arg))" by (simp add: length_header)
  have d3: "?d2\<lparr>src := enat (length (pre @ header 4 ai arg) + length (concat (map wire items)))\<rparr> = ?d3"
    by (simp add: length_header)
  have k: "length (concat (map wire items)) < k"
    using IArray.prems(4) n by (simp add: length_header)
  then have k': "length (concat (map wire items)) \<le> k" by simp
  have each: "decodeValue (memReader h (pre @ wire it @ post)) opts k d =
              outcome (decodeItem h opts False (keyPath d) it)
                (d\<lparr>src := enat (length pre + length (wire it))\<rparr>)"
    if "it \<in> set items" "src d = enat (length pre)" "\<not> isKey d" for it pre post d
  proof -
    from length_wire_member[OF that(1)] k have "length (wire it) < k" by simp
    from IArray.IH[OF that(1) _ _ that(2) this, of post] that wf tk show ?thesis by simp
  qed
  from length_items_le[of items] k have items: "length items \<le> k" by simp
  have "forLoop k (enat (0 + length items)) 0
           (\<lambda>i value.
              andThen (pushKey (Index i)) (\<lambda>_.
              andThen (decodeValue (memReader h ?data) opts k) (\<lambda>v.
              andThen popKey (\<lambda>_.
              ret (value @ [v])))))
           [] ?d2 =
           outcome (decodeElements h opts False (keyPath ?d2) 0 items [])
             (?d2\<lparr>src := enat (length (pre @ header 4 ai arg) + length (concat (map wire items)))\<rparr>)"
    by (rule elements_loop[OF each data2 d2 _ items]) (simp_all add: nk)
  then have loop: "forLoop k (enat (argValue ai arg)) 0
           (\<lambda>i value.
              andThen (pushKey (Index i)) (\<lambda>_.
              andThen (decodeValue (memReader h ?data) opts k) (\<lambda>v.
              andThen popKey (\<lambda>_.
              ret (value @ [v])))))
           [] ?d2 =
           outcome (decodeElements h opts False (keyPath d) 0 items []) ?d3"
    using len by (simp add: length_header add.assoc)
  have dec: "(if enat (argValue ai arg) < 2 ^ 32 then
                andThen
                  (forLoop k (enat (argValue ai arg)) 0
                     (\<lambda>i value.
              andThen (pushKey (Index i)) (\<lambda>_.
              andThen (decodeValue (memReader h ?data) opts k) (\<lambda>v.
              andThen popKey (\<lambda>_.
              ret (value @ [v])))))
                     [])
                  (\<lambda>value. ret (VArray value))
              else throw RangeError) ?d2 = outcome ?R ?d3"
  proof (cases "argValue ai arg < 2 ^ 32")
    case True
    then have c: "enat (argValue ai arg) < 2 ^ 32" unfolding enat_less_pow32 .
    show ?thesis unfolding if_P[OF c] if_P[OF True] by (rule andThen_outcome) (rule loop)
  next
    case False
    then have c: "\<not> enat (argValue ai arg) < 2 ^ 32" unfolding enat_less_pow32 .
    show ?thesis unfolding if_not_P[OF c] if_not_P[OF False] by (simp add: throw_apply)
  qed
  have "forLoop k (enat (length items)) 0 (\<lambda>i _. skipValue (memReader h ?data) opts k) () ?d2 =
           Ok ((), ?d2\<lparr>src := enat (length (pre @ header 4 ai arg) + length (concat (map wire items)))\<rparr>)"
    by (rule skip_container[OF skip_item wf data2 d2 k'])
  then have skip: "forLoop k (enat (argValue ai arg)) 0 (\<lambda>i _. skipValue (memReader h ?data) opts k) () ?d2 =
           Ok ((), ?d3)"
    using len by (simp add: length_header add.assoc)
  have defined: "v \<noteq> VUndefined" if "?R = Inr v" for v
    using that by (cases "decodeElements h opts False (keyPath d) 0 items []") (auto split: if_splits)
  have "hooked (onValueAt opts (enat (argValue ai arg)) ''array'' (keyPath d))
          (if enat (argValue ai arg) < 2 ^ 32 then
                andThen
                  (forLoop k (enat (argValue ai arg)) 0
                     (\<lambda>i value.
              andThen (pushKey (Index i)) (\<lambda>_.
              andThen (decodeValue (memReader h ?data) opts k) (\<lambda>v.
              andThen popKey (\<lambda>_.
              ret (value @ [v])))))
                     [])
                  (\<lambda>value. ret (VArray value))
              else throw RangeError)
          (forLoop k (enat (argValue ai arg)) 0 (\<lambda>i _. skipValue (memReader h ?data) opts k) ()) ?d2 =
        outcome (withHook (onValueAt opts (enat (argValue ai arg)) ''array'' (keyPath d)) ?R) ?d3"
    by (rule hooked_withHook[where dec = "(if enat (argValue ai arg) < 2 ^ 32 then
                andThen
                  (forLoop k (enat (argValue ai arg)) 0
                     (\<lambda>i value.
              andThen (pushKey (Index i)) (\<lambda>_.
              andThen (decodeValue (memReader h ?data) opts k) (\<lambda>v.
              andThen popKey (\<lambda>_.
              ret (value @ [v])))))
                     [])
                  (\<lambda>value. ret (VArray value))
              else throw RangeError)"
          and skip = "(forLoop k (enat (argValue ai arg)) 0 (\<lambda>i _. skipValue (memReader h ?data) opts k) ())"
          and d = "?d2", OF dec skip defined])
  with hd nk show ?case
    unfolding n
    by (simp add: decodeValue_Suc andThen_apply[where m = "uint r b" for r b]
        andThen_apply[where m = getEnv] andThen_apply[where m = "getArgument r b" for r b]
        getEnv_apply Let_def del: wire.simps)
next
  case (IMap ai arg items)
  from IMap.prems(4) obtain k where n: "n = Suc k" by (cases n) auto
  from IMap.prems(1) have ok: "argOk ai arg" and safe: "argValue ai arg \<le> maxSafeInteger"
    and len: "length items = argValue ai arg * 2" and wf: "\<forall>it \<in> set items. wellFormed opts it" by auto
  from IMap.prems(2) have tk: "\<forall>it \<in> set items. textKeys it" and keys: "keysText items" by simp_all
  from IMap.prems(5) have nk: "\<not> isKey d" by auto
  let ?data = "pre @ wire (IMap ai arg items) @ post"
  let ?d2 = "d\<lparr>src := enat (length pre + 1 + length arg)\<rparr>"
  let ?d3 = "d\<lparr>src := enat (length pre + length (wire (IMap ai arg items)))\<rparr>"
  let ?R = "map_sum id VObject (decodeEntries h opts (keyPath d) items [])"
  have data: "?data = pre @ header 5 ai arg @ (concat (map wire items) @ post)" by simp
  from mem_head[OF data IMap.prems(3) _ ok safe, of h] obtain ib where hd:
    "uint (memReader h ?data) 1 d = Ok (ib, d\<lparr>src := enat (length pre + 1)\<rparr>)"
    "ib div 32 = 5" "ib mod 32 = ai"
    "getArgument (memReader h ?data) ai (d\<lparr>src := enat (length pre + 1)\<rparr>) =
       Ok ((enat (argValue ai arg), if ai = 27 then Some (bigEndian arg) else None, argSize ai), ?d2)"
    by auto
  have data2: "?data = (pre @ header 5 ai arg) @ concat (map wire items) @ post" by simp
  have d2: "src ?d2 = enat (length (pre @ header 5 ai arg))" by (simp add: length_header)
  have d3: "?d2\<lparr>src := enat (length (pre @ header 5 ai arg) + length (concat (map wire items)))\<rparr> = ?d3"
    by (simp add: length_header)
  have k: "length (concat (map wire items)) < k"
    using IMap.prems(4) n by (simp add: length_header)
  then have k': "length (concat (map wire items)) \<le> k" by simp
  have each: "decodeValue (memReader h (pre @ wire it @ post)) opts k d =
              outcome (decodeItem h opts (isKey d) (keyPath d) it)
                (d\<lparr>src := enat (length pre + length (wire it))\<rparr>)"
    if "it \<in> set items" "src d = enat (length pre)" "isKey d \<longrightarrow> isText it" for it pre post d
  proof -
    from length_wire_member[OF that(1)] k have "length (wire it) < k" by simp
    from IMap.IH[OF that(1) _ _ that(2) this that(3), of post] that wf tk show ?thesis by simp
  qed
  from length_items_le[of items] k len have items: "argValue ai arg \<le> k" by simp
  have len': "length items = 2 * argValue ai arg" using len by simp
  have "forLoop k (enat (0 + argValue ai arg)) 0
           (\<lambda>i value.
              andThen (setIsKey True) (\<lambda>_.
              andThen (decodeValue (memReader h ?data) opts k) (\<lambda>key.
              andThen (setIsKey False) (\<lambda>_.
              case key of
                VString name \<Rightarrow>
                  if duplicate (memReader h ?data) name value then throw DuplicateObjectKey
                  else
                    andThen (pushKey (Name name)) (\<lambda>_.
                    andThen (decodeValue (memReader h ?data) opts k) (\<lambda>v.
                    andThen popKey (\<lambda>_.
                    ret (assign value name v))))
              | _ \<Rightarrow> throw NonStringKey))))
           [] ?d2 =
           outcome (decodeEntries h opts (keyPath ?d2) items [])
             (?d2\<lparr>src := enat (length (pre @ header 5 ai arg) + length (concat (map wire items)))\<rparr>)"
    by (rule entries_loop[OF each data2 d2 _ keys len' items]) (simp_all add: nk)
  then have loop: "forLoop k (enat (argValue ai arg)) 0
           (\<lambda>i value.
              andThen (setIsKey True) (\<lambda>_.
              andThen (decodeValue (memReader h ?data) opts k) (\<lambda>key.
              andThen (setIsKey False) (\<lambda>_.
              case key of
                VString name \<Rightarrow>
                  if duplicate (memReader h ?data) name value then throw DuplicateObjectKey
                  else
                    andThen (pushKey (Name name)) (\<lambda>_.
                    andThen (decodeValue (memReader h ?data) opts k) (\<lambda>v.
                    andThen popKey (\<lambda>_.
                    ret (assign value name v))))
              | _ \<Rightarrow> throw NonStringKey))))
           [] ?d2 =
           outcome (decodeEntries h opts (keyPath d) items []) ?d3"
    by (simp add: length_header add.assoc)
  have dec: "andThen
                  (forLoop k (enat (argValue ai arg)) 0
                     (\<lambda>i value.
              andThen (setIsKey True) (\<lambda>_.
              andThen (decodeValue (memReader h ?data) opts k) (\<lambda>key.
              andThen (setIsKey False) (\<lambda>_.
              case key of
                VString name \<Rightarrow>
                  if duplicate (memReader h ?data) name value then throw DuplicateObjectKey
                  else
                    andThen (pushKey (Name name)) (\<lambda>_.
                    andThen (decodeValue (memReader h ?data) opts k) (\<lambda>v.
                    andThen popKey (\<lambda>_.
                    ret (assign value name v))))
              | _ \<Rightarrow> throw NonStringKey))))
                     [])
                  (\<lambda>value. ret (VObject value)) ?d2 = outcome ?R ?d3"
    by (rule andThen_outcome) (rule loop)
  have "forLoop k (enat (length items)) 0 (\<lambda>i _. skipValue (memReader h ?data) opts k) () ?d2 =
           Ok ((), ?d2\<lparr>src := enat (length (pre @ header 5 ai arg) + length (concat (map wire items)))\<rparr>)"
    by (rule skip_container[OF skip_item wf data2 d2 k'])
  then have skip: "forLoop k (enat (argValue ai arg) * 2) 0 (\<lambda>i _. skipValue (memReader h ?data) opts k) () ?d2 =
           Ok ((), ?d3)"
    using len by (simp add: enat_times_2 length_header add.assoc)
  have defined: "v \<noteq> VUndefined" if "?R = Inr v" for v
    using that by (cases "decodeEntries h opts (keyPath d) items []") auto
  have "hooked (onValueAt opts (enat (argValue ai arg)) ''object'' (keyPath d))
          (andThen
                  (forLoop k (enat (argValue ai arg)) 0
                     (\<lambda>i value.
              andThen (setIsKey True) (\<lambda>_.
              andThen (decodeValue (memReader h ?data) opts k) (\<lambda>key.
              andThen (setIsKey False) (\<lambda>_.
              case key of
                VString name \<Rightarrow>
                  if duplicate (memReader h ?data) name value then throw DuplicateObjectKey
                  else
                    andThen (pushKey (Name name)) (\<lambda>_.
                    andThen (decodeValue (memReader h ?data) opts k) (\<lambda>v.
                    andThen popKey (\<lambda>_.
                    ret (assign value name v))))
              | _ \<Rightarrow> throw NonStringKey))))
                     [])
                  (\<lambda>value. ret (VObject value)))
          (forLoop k (enat (argValue ai arg) * 2) 0 (\<lambda>i _. skipValue (memReader h ?data) opts k) ()) ?d2 =
        outcome (withHook (onValueAt opts (enat (argValue ai arg)) ''object'' (keyPath d)) ?R) ?d3"
    by (rule hooked_withHook[where dec = "(andThen
                  (forLoop k (enat (argValue ai arg)) 0
                     (\<lambda>i value.
              andThen (setIsKey True) (\<lambda>_.
              andThen (decodeValue (memReader h ?data) opts k) (\<lambda>key.
              andThen (setIsKey False) (\<lambda>_.
              case key of
                VString name \<Rightarrow>
                  if duplicate (memReader h ?data) name value then throw DuplicateObjectKey
                  else
                    andThen (pushKey (Name name)) (\<lambda>_.
                    andThen (decodeValue (memReader h ?data) opts k) (\<lambda>v.
                    andThen popKey (\<lambda>_.
                    ret (assign value name v))))
              | _ \<Rightarrow> throw NonStringKey))))
                     [])
                  (\<lambda>value. ret (VObject value)))"
          and skip = "(forLoop k (enat (argValue ai arg) * 2) 0 (\<lambda>i _. skipValue (memReader h ?data) opts k) ())"
          and d = "?d2", OF dec skip defined])
  with hd nk show ?case
    unfolding n
    by (simp add: decodeValue_Suc andThen_apply[where m = "uint r b" for r b]
        andThen_apply[where m = getEnv] andThen_apply[where m = "getArgument r b" for r b]
        getEnv_apply Let_def del: wire.simps)
next
  case (ISimple ai)
  from ISimple.prems(4) obtain k where n: "n = Suc k" by (cases n) auto
  from ISimple.prems(1) have ai: "ai = 20 \<or> ai = 21 \<or> ai = 22 \<or> (ai = 23 \<and> allowUndefined opts)"
    by simp
  then have "ai < 32" by auto
  have data: "pre @ wire (ISimple ai) @ post = pre @ header 7 ai [] @ post" by simp
  from mem_initial[OF data ISimple.prems(3) _ \<open>ai < 32\<close>, of h] obtain ib where
    "uint (memReader h (pre @ wire (ISimple ai) @ post)) 1 d = Ok (ib, d\<lparr>src := enat (length pre + 1)\<rparr>)"
    "ib div 32 = 7" "ib mod 32 = ai"
    by auto
  with ai show ?case
    unfolding n
    by (auto simp add: decodeValue_Suc andThen_apply getEnv_apply Let_def length_wire
        hookedConst_withHook simp del: wire.simps)
next
  case (IFloat ai payload)
  from IFloat.prems(4) obtain k where n: "n = Suc k" by (cases n) auto
  from IFloat.prems(1) have ai: "(ai = 25 \<and> length payload = 2 \<and> minFloatSize opts \<le> 16) \<or>
      (ai = 26 \<and> length payload = 4 \<and> minFloatSize opts \<le> 32) \<or> (ai = 27 \<and> length payload = 8)"
    by auto
  then have "ai < 32" by auto
  let ?data = "pre @ wire (IFloat ai payload) @ post"
  let ?d1 = "d\<lparr>src := enat (length pre + 1)\<rparr>"
  have data: "?data = pre @ header 7 ai payload @ post" by simp
  from mem_initial[OF data IFloat.prems(3) _ \<open>ai < 32\<close>, of h] obtain ib where hd:
    "uint (memReader h ?data) 1 d = Ok (ib, ?d1)" "ib div 32 = 7" "ib mod 32 = ai"
    by auto
  have data1: "?data = (pre @ [of_nat (7 * 32 + ai)]) @ payload @ post"
    by (simp add: header_def)
  have "src ?d1 = enat (length (pre @ [of_nat (7 * 32 + ai) :: byte]))" by simp
  from mem_float[OF this, of h payload post]
  have fl: "float (memReader h ?data) (length payload) ?d1 =
           Ok (VFloat (8 * length payload) (bigEndian payload),
               d\<lparr>src := enat (length pre + 1 + length payload)\<rparr>)"
    unfolding data1 by simp
  from ai hd fl show ?case
    unfolding n
    by (auto simp add: decodeValue_Suc andThen_apply getEnv_apply Let_def length_wire
        hookedConst_withHook simp del: wire.simps)
qed

lemma decode_tree:
  assumes "wellFormed opts it" "textKeys it"
  shows "decode h opts (wire it @ post) =
           (case decodeItem h opts False [] it of Inl e \<Rightarrow> Err e | Inr v \<Rightarrow> Ok v)"
proof -
  have "decodeValue (memReader h ([] @ wire it @ post)) opts (Suc (length (wire it @ post))) newDecoder =
     outcome (decodeItem h opts (isKey (newDecoder :: enat decoder)) (keyPath (newDecoder :: enat decoder)) it)
       (newDecoder\<lparr>src := enat (length ([] :: byte list) + length (wire it))\<rparr>)"
    by (rule decode_item[OF assms]) (simp_all add: newDecoder_def zero_enat_def)
  then show ?thesis
    by (cases "decodeItem h opts False [] it") (simp_all add: decode_def valueOf_def newDecoder_def)
qed

section \<open>Hooks that catch, hooks that write to the key path\<close>













lemma forget_simps [simp]:
  "forget (Returns x s) = Ok (x, s)" "forget (Throws e s) = Err e" "forget Stops = OutOfFuel"
  by (simp_all add: forget_def)

lemma forget_Ok: "forget r = Ok (x, s) \<Longrightarrow> r = Returns x s"
  by (cases r) simp_all

lemma forget_Err: "forget r = Err e \<Longrightarrow> \<exists>s. r = Throws e s"
  by (cases r) simp_all

lemma forget_OutOfFuel: "forget r = OutOfFuel \<Longrightarrow> r = Stops"
  by (cases r) simp_all



































end
